theory Spec2Isabelle
  imports Complex_Main
begin

section \<open>Sentence averaging kernel (fse/models/average\_inner.pyx)\<close>

text \<open>
  The kernel has two halves. The populators walk a batch of indexed sentences and
  linearise it into flat index arrays held in a configuration struct; the averaging engines
  read those arrays and update the rows of the output matrix with the BLAS primitives
  \<open>saxpy\<close> and \<open>sscal\<close>.

  Modelling decisions:
  \<^item> \<open>uINT_t\<close> values are natural numbers. \<open>eff_words\<close> is stopped at \<open>MAX_WORDS\<close>
    and the values stored are vocabulary indices, row indices and bucket indices.
  \<^item> \<open>REAL_t\<close> is a single-precision number. The value of an average is stated for
    the plain engine over an arbitrary arithmetic: what \<open>saxpy\<close> and \<open>sscal\<close> store in
    an entry, and what \<open>ONEF / sent_len\<close> is, are parameters, so every operation rounds as
    the BLAS rounds. The statements about which rows, slots and counters are written use
    the engines on real numbers instead, with every accumulation in the source's order.
  \<^item> Every array reached through a pointer of the struct is a total map from offsets to
    values, so the model has no capacity: which offsets are written is stated by the
    theorems about the counters that index the writes, and a statement about an entry of
    \<open>sentence_boundary\<close> is made for an index below \<open>sentence_boundary_capacity\<close>.
  \<^item> The arrays of the struct are fields of a record, so they do not overlap: the
    embedding matrices, the output matrix and the scratch buffer are separate arrays of
    the caller.
  \<^item> A matrix is the flat row-major array the pointer addresses: row \<open>r\<close> occupies the
    offsets \<open>r * size ..< r * size + size\<close>.
\<close>

subsection \<open>Constants and data\<close>

definition MAX_WORDS :: nat where
  "MAX_WORDS = 10000"

definition MAX_NGRAMS :: nat where
  "MAX_NGRAMS = 40"

text \<open>
  Modelled from the spec: the struct declaration (the \<open>.pxd\<close> file) is not part of the
  sources; the spec gives \<open>sentence_boundary[MAX_WORDS+1]\<close>.
\<close>

definition sentence_boundary_capacity :: nat where
  "sentence_boundary_capacity = MAX_WORDS + 1"

text \<open>An \<open>IndexedSentence\<close>: the token list and the target row.\<close>

record IndexedSentence =
  words :: "string list"
  index :: nat

text \<open>The vocabulary maps a token to its \<open>word.index\<close>.\<close>

type_synonym vocab = "string \<rightharpoonup> nat"

record 'r BaseSentenceVecsConfig =
  workers :: nat
  size_c :: nat
  word_vectors :: "nat \<Rightarrow> 'r"
  word_weights :: "nat \<Rightarrow> 'r"
  sentence_vectors :: "nat \<Rightarrow> 'r"
  word_indices :: "nat \<Rightarrow> nat"
  sent_adresses :: "nat \<Rightarrow> nat"
  sentence_boundary :: "nat \<Rightarrow> nat"

record FTSentenceVecsConfig = "real BaseSentenceVecsConfig" +
  min_n :: nat
  max_n :: nat
  bucket :: nat
  oov_weight :: real
  mem :: "nat \<Rightarrow> real"
  subwords_idx :: "nat \<Rightarrow> nat"
  subwords_idx_len :: "nat \<Rightarrow> nat"
  ngram_vectors :: "nat \<Rightarrow> real"

subsection \<open>Linear algebra primitives\<close>

text \<open>
  \<open>saxpy(&n, &alpha, &x[xo], &ONE, &y[yo], &ONE)\<close> is \<open>y += alpha * x\<close> on \<open>n\<close>
  entries; \<open>sscal(&n, &alpha, &x[xo], &ONE)\<close> is \<open>x = alpha * x\<close>. The result is the
  updated target array.
\<close>

definition saxpy :: "nat \<Rightarrow> real \<Rightarrow> (nat \<Rightarrow> real) \<Rightarrow> nat \<Rightarrow> (nat \<Rightarrow> real) \<Rightarrow> nat \<Rightarrow> (nat \<Rightarrow> real)" where
  "saxpy n alpha x xo y yo =
     (\<lambda>k. if yo \<le> k \<and> k < yo + n then y k + alpha * x (xo + (k - yo)) else y k)"

definition sscal :: "nat \<Rightarrow> real \<Rightarrow> (nat \<Rightarrow> real) \<Rightarrow> nat \<Rightarrow> (nat \<Rightarrow> real)" where
  "sscal n alpha x xo = (\<lambda>k. if xo \<le> k \<and> k < xo + n then alpha * x k else x k)"

text \<open>\<open>memset(mem, 0, size * sizeof(REAL_t))\<close>.\<close>

definition memset_zero :: "(nat \<Rightarrow> real) \<Rightarrow> nat \<Rightarrow> (nat \<Rightarrow> real)" where
  "memset_zero m n = (\<lambda>k. if k < n then 0 else m k)"

subsection \<open>Batch populator, plain vocabulary\<close>

text \<open>
  The token loop of \<open>populate_base_s2v_config\<close> (lines 74 to 83) on the pair of the
  struct and \<open>eff_words\<close>. A token outside the vocabulary is skipped by \<open>continue\<close>; the
  loop is left by \<open>break\<close> when the counter reaches \<open>MAX_WORDS\<close>.
\<close>

fun populate_base_tokens ::
  "vocab \<Rightarrow> nat \<Rightarrow> string list \<Rightarrow> (('r, 'a) BaseSentenceVecsConfig_scheme \<times> nat)
     \<Rightarrow> (('r, 'a) BaseSentenceVecsConfig_scheme \<times> nat)" where
  "populate_base_tokens vocab obj_index [] (c, eff_words) = (c, eff_words)"
| "populate_base_tokens vocab obj_index (token # rest) (c, eff_words) =
     (case vocab token of
        None \<Rightarrow> populate_base_tokens vocab obj_index rest (c, eff_words)
      | Some word_index \<Rightarrow>
          (let c1 = c\<lparr>word_indices := (word_indices c)(eff_words := word_index)\<rparr>;
               c2 = c1\<lparr>sent_adresses := (sent_adresses c1)(eff_words := obj_index)\<rparr>
           in if eff_words + 1 = MAX_WORDS then (c2, eff_words + 1)
              else populate_base_tokens vocab obj_index rest (c2, eff_words + 1)))"

text \<open>
  The sentence loop (lines 71 to 89) on the struct, \<open>eff_sents\<close> and \<open>eff_words\<close>. An
  empty sentence is skipped; after the token loop the boundary entry is written, then
  the loop is left when the cap is reached.
\<close>

fun populate_base_sentences ::
  "vocab \<Rightarrow> IndexedSentence list \<Rightarrow> (('r, 'a) BaseSentenceVecsConfig_scheme \<times> nat \<times> nat)
     \<Rightarrow> (('r, 'a) BaseSentenceVecsConfig_scheme \<times> nat \<times> nat)" where
  "populate_base_sentences vocab [] (c, eff_sents, eff_words) = (c, eff_sents, eff_words)"
| "populate_base_sentences vocab (obj # rest) (c, eff_sents, eff_words) =
     (if words obj = [] then populate_base_sentences vocab rest (c, eff_sents, eff_words)
      else
        (case populate_base_tokens vocab (index obj) (words obj) (c, eff_words) of
           (c1, eff_words1) \<Rightarrow>
             (let c2 = c1\<lparr>sentence_boundary := (sentence_boundary c1)(eff_sents + 1 := eff_words1)\<rparr>
              in if eff_words1 = MAX_WORDS then (c2, eff_sents + 1, eff_words1)
                 else populate_base_sentences vocab rest (c2, eff_sents + 1, eff_words1))))"

text \<open>The result is the struct after the call with the returned pair \<open>(eff_sents, eff_words)\<close>.\<close>

definition populate_base_s2v_config ::
  "('r, 'a) BaseSentenceVecsConfig_scheme \<Rightarrow> vocab \<Rightarrow> IndexedSentence list
     \<Rightarrow> (('r, 'a) BaseSentenceVecsConfig_scheme \<times> nat \<times> nat)" where
  "populate_base_s2v_config c vocab indexed_sentences =
     populate_base_sentences vocab indexed_sentences
       (c\<lparr>sentence_boundary := (sentence_boundary c)(0 := 0)\<rparr>, 0, 0)"

subsection \<open>Batch populator, subword fallback\<close>

text \<open>
  \<open>compute_ngrams_bytes\<close> and \<open>ft_hash_bytes\<close> are imported from gensim; they are
  parameters \<open>cnb\<close> and \<open>fhb\<close> of the model. Line 116 reduces every hash modulo the
  bucket count (positive in every model that has subword information).
\<close>

definition ngram_hashes ::
  "(string \<Rightarrow> nat \<Rightarrow> nat \<Rightarrow> string list) \<Rightarrow> (string \<Rightarrow> nat) \<Rightarrow> FTSentenceVecsConfig \<Rightarrow> string \<Rightarrow> nat list" where
  "ngram_hashes cnb fhb c token = map (\<lambda>n. fhb n mod bucket c) (cnb token (min_n c) (max_n c))"

text \<open>Lines 119 and 120: hash number \<open>i\<close> of the token is stored at \<open>eff_words + i\<close>.\<close>

fun write_subwords :: "nat \<Rightarrow> nat \<Rightarrow> nat list \<Rightarrow> (nat \<Rightarrow> nat) \<Rightarrow> (nat \<Rightarrow> nat)" where
  "write_subwords eff_words i [] a = a"
| "write_subwords eff_words i (h # hs) a = write_subwords eff_words (i + 1) hs (a(eff_words + i := h))"

text \<open>
  The writes of the token loop for one token (lines 104 to 120), at slot \<open>eff_words\<close>: the
  target row, then the vocabulary index with subword count 0, or index 0 with the kept
  hashes of the token and their count.
\<close>

definition populate_ft_token ::
  "(string \<Rightarrow> nat \<Rightarrow> nat \<Rightarrow> string list) \<Rightarrow> (string \<Rightarrow> nat) \<Rightarrow> vocab \<Rightarrow> nat \<Rightarrow> string
     \<Rightarrow> FTSentenceVecsConfig \<Rightarrow> nat \<Rightarrow> FTSentenceVecsConfig" where
  "populate_ft_token cnb fhb vocab obj_index token c eff_words =
     (let c1 = c\<lparr>sent_adresses := (sent_adresses c)(eff_words := obj_index)\<rparr>
      in case vocab token of
           Some word_index \<Rightarrow>
             c1\<lparr>word_indices := (word_indices c1)(eff_words := word_index),
                subwords_idx_len := (subwords_idx_len c1)(eff_words := 0)\<rparr>
         | None \<Rightarrow>
             (let hashes = ngram_hashes cnb fhb c1 token
              in c1\<lparr>word_indices := (word_indices c1)(eff_words := 0),
                    subwords_idx_len := (subwords_idx_len c1)
                       (eff_words := min (length hashes) MAX_NGRAMS),
                    subwords_idx := write_subwords eff_words 0 (take MAX_NGRAMS hashes)
                       (subwords_idx c1)\<rparr>))"

text \<open>The token loop (lines 103 to 125), left by \<open>break\<close> when the counter reaches the cap.\<close>

fun populate_ft_tokens ::
  "(string \<Rightarrow> nat \<Rightarrow> nat \<Rightarrow> string list) \<Rightarrow> (string \<Rightarrow> nat) \<Rightarrow> vocab \<Rightarrow> nat \<Rightarrow> string list
     \<Rightarrow> (FTSentenceVecsConfig \<times> nat) \<Rightarrow> (FTSentenceVecsConfig \<times> nat)" where
  "populate_ft_tokens cnb fhb vocab obj_index [] (c, eff_words) = (c, eff_words)"
| "populate_ft_tokens cnb fhb vocab obj_index (token # rest) (c, eff_words) =
     (let c2 = populate_ft_token cnb fhb vocab obj_index token c eff_words
      in if eff_words + 1 = MAX_WORDS then (c2, eff_words + 1)
         else populate_ft_tokens cnb fhb vocab obj_index rest (c2, eff_words + 1))"

fun populate_ft_sentences ::
  "(string \<Rightarrow> nat \<Rightarrow> nat \<Rightarrow> string list) \<Rightarrow> (string \<Rightarrow> nat) \<Rightarrow> vocab \<Rightarrow> IndexedSentence list
     \<Rightarrow> (FTSentenceVecsConfig \<times> nat \<times> nat) \<Rightarrow> (FTSentenceVecsConfig \<times> nat \<times> nat)" where
  "populate_ft_sentences cnb fhb vocab [] (c, eff_sents, eff_words) = (c, eff_sents, eff_words)"
| "populate_ft_sentences cnb fhb vocab (obj # rest) (c, eff_sents, eff_words) =
     (if words obj = [] then populate_ft_sentences cnb fhb vocab rest (c, eff_sents, eff_words)
      else
        (case populate_ft_tokens cnb fhb vocab (index obj) (words obj) (c, eff_words) of
           (c1, eff_words1) \<Rightarrow>
             (let c2 = c1\<lparr>sentence_boundary := (sentence_boundary c1)(eff_sents + 1 := eff_words1)\<rparr>
              in if eff_words1 = MAX_WORDS then (c2, eff_sents + 1, eff_words1)
                 else populate_ft_sentences cnb fhb vocab rest (c2, eff_sents + 1, eff_words1))))"

definition populate_ft_s2v_config ::
  "(string \<Rightarrow> nat \<Rightarrow> nat \<Rightarrow> string list) \<Rightarrow> (string \<Rightarrow> nat) \<Rightarrow> FTSentenceVecsConfig \<Rightarrow> vocab
     \<Rightarrow> IndexedSentence list \<Rightarrow> (FTSentenceVecsConfig \<times> nat \<times> nat)" where
  "populate_ft_s2v_config cnb fhb c vocab indexed_sentences =
     populate_ft_sentences cnb fhb vocab indexed_sentences
       (c\<lparr>sentence_boundary := (sentence_boundary c)(0 := 0)\<rparr>, 0, 0)"

subsection \<open>Averaging engine, plain vocabulary\<close>

text \<open>
  The body of the word loop (lines 165 to 170) on the output matrix and the locals
  \<open>sent_len\<close> and \<open>sent_row\<close>.
\<close>

definition base_word_step ::
  "(real, 'a) BaseSentenceVecsConfig_scheme \<Rightarrow> nat \<Rightarrow> ((nat \<Rightarrow> real) \<times> real \<times> nat) \<Rightarrow> ((nat \<Rightarrow> real) \<times> real \<times> nat)" where
  "base_word_step c i st =
     (case st of (sent_vectors, sent_len, sent_row) \<Rightarrow>
        (let sent_row1 = sent_adresses c i * size_c c;
             word_row = word_indices c i * size_c c;
             word_idx = word_indices c i
         in (saxpy (size_c c) (word_weights c word_idx) (word_vectors c) word_row sent_vectors sent_row1,
             sent_len + 1, sent_row1)))"

text \<open>
  The body of the sentence loop (lines 160 to 174). \<open>sent_row\<close> keeps its value from one
  sentence to the next, as the C local does.
\<close>

definition base_sentence_step ::
  "(real, 'a) BaseSentenceVecsConfig_scheme \<Rightarrow> nat \<Rightarrow> ((nat \<Rightarrow> real) \<times> nat) \<Rightarrow> ((nat \<Rightarrow> real) \<times> nat)" where
  "base_sentence_step c sent_idx st =
     (case st of (sent_vectors, sent_row) \<Rightarrow>
        (let sent_start = sentence_boundary c sent_idx;
             sent_end = sentence_boundary c (sent_idx + 1)
         in (case fold (base_word_step c) [sent_start..<sent_end] (sent_vectors, 0, sent_row) of
               (sent_vectors1, sent_len, sent_row1) \<Rightarrow>
                 if sent_len > 0
                 then (sscal (size_c c) (1 / sent_len) sent_vectors1 sent_row1, sent_row1)
                 else (sent_vectors1, sent_row1))))"

text \<open>
  \<open>sent_row\<close> is not initialised in the source; it is read only after a word of
  the current sentence has set it. The model starts it at 0.
\<close>

definition compute_base_sentence_averages ::
  "(real, 'a) BaseSentenceVecsConfig_scheme \<Rightarrow> nat \<Rightarrow> (real, 'a) BaseSentenceVecsConfig_scheme" where
  "compute_base_sentence_averages c num_sentences =
     c\<lparr>sentence_vectors :=
         fst (fold (base_sentence_step c) [0..<num_sentences] (sentence_vectors c, 0))\<rparr>"

subsection \<open>Averaging engine, plain vocabulary, over the arithmetic of \<open>REAL_t\<close>\<close>

text \<open>
  \<open>saxpy\<close> and \<open>sscal\<close> are the single-precision BLAS routines (lines 24 and 25):
  every entry they store is rounded, and whether \<open>saxpy\<close> rounds the product before the
  addition depends on the BLAS. For the value of an average the engine is taken over an
  arbitrary type \<open>'r\<close> of \<open>REAL_t\<close> values and an arbitrary arithmetic on it:
  \<^item> \<open>axpy_entry alpha x y\<close> is what \<open>saxpy\<close> stores in an entry that held \<open>y\<close>, for the
    factor \<open>alpha\<close> and the source entry \<open>x\<close> (\<open>y += alpha * x\<close>);
  \<^item> \<open>scal_entry alpha x\<close> is what \<open>sscal\<close> stores in an entry that held \<open>x\<close>
    (\<open>x = alpha * x\<close>);
  \<^item> \<open>one_over n\<close> is \<open>ONEF / sent_len\<close> (line 173) when \<open>sent_len\<close> has been
    incremented \<open>n\<close> times from \<open>ZEROF\<close> (lines 162 and 165).
\<close>

record 'r REAL_arith =
  one_over :: "nat \<Rightarrow> 'r"
  axpy_entry :: "'r \<Rightarrow> 'r \<Rightarrow> 'r \<Rightarrow> 'r"
  scal_entry :: "'r \<Rightarrow> 'r \<Rightarrow> 'r"

definition saxpy_ar ::
  "'r REAL_arith \<Rightarrow> nat \<Rightarrow> 'r \<Rightarrow> (nat \<Rightarrow> 'r) \<Rightarrow> nat \<Rightarrow> (nat \<Rightarrow> 'r) \<Rightarrow> nat \<Rightarrow> (nat \<Rightarrow> 'r)" where
  "saxpy_ar ar n alpha x xo y yo =
     (\<lambda>k. if yo \<le> k \<and> k < yo + n then axpy_entry ar alpha (x (xo + (k - yo))) (y k) else y k)"

definition sscal_ar :: "'r REAL_arith \<Rightarrow> nat \<Rightarrow> 'r \<Rightarrow> (nat \<Rightarrow> 'r) \<Rightarrow> nat \<Rightarrow> (nat \<Rightarrow> 'r)" where
  "sscal_ar ar n alpha x xo = (\<lambda>k. if xo \<le> k \<and> k < xo + n then scal_entry ar alpha (x k) else x k)"

text \<open>
  The body of the word loop (lines 165 to 170). The local \<open>sent_len\<close> is kept as the
  number of its increments.
\<close>

definition base_word_step_ar ::
  "'r REAL_arith \<Rightarrow> ('r, 'a) BaseSentenceVecsConfig_scheme \<Rightarrow> nat \<Rightarrow> ((nat \<Rightarrow> 'r) \<times> nat \<times> nat)
     \<Rightarrow> ((nat \<Rightarrow> 'r) \<times> nat \<times> nat)" where
  "base_word_step_ar ar c i st =
     (case st of (sent_vectors, sent_len, sent_row) \<Rightarrow>
        (let sent_row1 = sent_adresses c i * size_c c;
             word_row = word_indices c i * size_c c;
             word_idx = word_indices c i
         in (saxpy_ar ar (size_c c) (word_weights c word_idx) (word_vectors c) word_row sent_vectors sent_row1,
             sent_len + 1, sent_row1)))"

text \<open>
  The body of the sentence loop (lines 160 to 174). The test \<open>sent_len > ZEROF\<close> holds
  exactly when \<open>sent_len\<close> has been incremented: a single-precision counter that starts
  at 0 and goes up by 1 is at least 1 from its first increment on.
\<close>

definition base_sentence_step_ar ::
  "'r REAL_arith \<Rightarrow> ('r, 'a) BaseSentenceVecsConfig_scheme \<Rightarrow> nat \<Rightarrow> ((nat \<Rightarrow> 'r) \<times> nat)
     \<Rightarrow> ((nat \<Rightarrow> 'r) \<times> nat)" where
  "base_sentence_step_ar ar c sent_idx st =
     (case st of (sent_vectors, sent_row) \<Rightarrow>
        (let sent_start = sentence_boundary c sent_idx;
             sent_end = sentence_boundary c (sent_idx + 1)
         in (case fold (base_word_step_ar ar c) [sent_start..<sent_end] (sent_vectors, 0, sent_row) of
               (sent_vectors1, sent_len, sent_row1) \<Rightarrow>
                 if sent_len > 0
                 then (sscal_ar ar (size_c c) (one_over ar sent_len) sent_vectors1 sent_row1, sent_row1)
                 else (sent_vectors1, sent_row1))))"

definition compute_base_sentence_averages_ar ::
  "'r REAL_arith \<Rightarrow> ('r, 'a) BaseSentenceVecsConfig_scheme \<Rightarrow> nat \<Rightarrow> ('r, 'a) BaseSentenceVecsConfig_scheme" where
  "compute_base_sentence_averages_ar ar c num_sentences =
     c\<lparr>sentence_vectors :=
         fst (fold (base_sentence_step_ar ar c) [0..<num_sentences] (sentence_vectors c, 0))\<rparr>"

subsection \<open>Averaging engine, subword fallback\<close>

text \<open>Lines 227 to 229: the kept n-gram rows of word \<open>i\<close> are added into the scratch buffer.\<close>

definition ft_ngram_step :: "FTSentenceVecsConfig \<Rightarrow> nat \<Rightarrow> nat \<Rightarrow> (nat \<Rightarrow> real) \<Rightarrow> (nat \<Rightarrow> real)" where
  "ft_ngram_step c i j m =
     (let ngram_row = subwords_idx c (i + j) * size_c c
      in saxpy (size_c c) 1 (ngram_vectors c) ngram_row m 0)"

text \<open>
  The body of the word loop (lines 217 to 233) on the output matrix, the scratch buffer
  and the locals \<open>sent_len\<close> and \<open>sent_row\<close>.
\<close>

definition ft_word_step ::
  "FTSentenceVecsConfig \<Rightarrow> nat \<Rightarrow> ((nat \<Rightarrow> real) \<times> (nat \<Rightarrow> real) \<times> real \<times> nat)
     \<Rightarrow> ((nat \<Rightarrow> real) \<times> (nat \<Rightarrow> real) \<times> real \<times> nat)" where
  "ft_word_step c i st =
     (case st of (sent_vectors, m, sent_len, sent_row) \<Rightarrow>
        (let sent_row1 = sent_adresses c i * size_c c;
             word_idx = word_indices c i;
             ngrams = subwords_idx_len c i
         in if ngrams = 0
            then (let word_row = word_indices c i * size_c c
                  in (saxpy (size_c c) (word_weights c word_idx) (word_vectors c) word_row
                        sent_vectors sent_row1,
                      m, sent_len + 1, sent_row1))
            else (let m1 = fold (ft_ngram_step c i) [0..<ngrams] m;
                      inv_ngram = 1 / real ngrams
                  in (saxpy (size_c c) inv_ngram m1 0 sent_vectors sent_row1,
                      memset_zero m1 (size_c c), sent_len + 1, sent_row1))))"

definition ft_sentence_step ::
  "FTSentenceVecsConfig \<Rightarrow> nat \<Rightarrow> ((nat \<Rightarrow> real) \<times> (nat \<Rightarrow> real) \<times> nat)
     \<Rightarrow> ((nat \<Rightarrow> real) \<times> (nat \<Rightarrow> real) \<times> nat)" where
  "ft_sentence_step c sent_idx st =
     (case st of (sent_vectors, m, sent_row) \<Rightarrow>
        (let sent_start = sentence_boundary c sent_idx;
             sent_end = sentence_boundary c (sent_idx + 1)
         in (case fold (ft_word_step c) [sent_start..<sent_end] (sent_vectors, m, 0, sent_row) of
               (sent_vectors1, m1, sent_len, sent_row1) \<Rightarrow>
                 if sent_len > 0
                 then (sscal (size_c c) (1 / sent_len) sent_vectors1 sent_row1, m1, sent_row1)
                 else (sent_vectors1, m1, sent_row1))))"

text \<open>The scratch buffer is cleared (line 209) before the sentence loop starts.\<close>

definition compute_ft_sentence_averages :: "FTSentenceVecsConfig \<Rightarrow> nat \<Rightarrow> FTSentenceVecsConfig" where
  "compute_ft_sentence_averages c num_sentences =
     (case fold (ft_sentence_step c) [0..<num_sentences]
             (sentence_vectors c, memset_zero (mem c) (size_c c), 0) of
        (sent_vectors, m, sent_row) \<Rightarrow> c\<lparr>sentence_vectors := sent_vectors, mem := m\<rparr>)"

subsection \<open>Entry point\<close>

text \<open>
  \<open>train_average_cy\<close> initialises the struct from the model (the pointers and sizes; the
  flat index arrays keep whatever they held), populates it and runs the engine. The two
  branches on \<open>model.is_ft\<close> are the two functions below, on the initialised struct; the
  result is the struct after the call with the returned pair.
\<close>

definition train_average_cy_base ::
  "(real, 'a) BaseSentenceVecsConfig_scheme \<Rightarrow> vocab \<Rightarrow> IndexedSentence list
     \<Rightarrow> ((real, 'a) BaseSentenceVecsConfig_scheme \<times> nat \<times> nat)" where
  "train_average_cy_base w2v vocab indexed_sentences =
     (case populate_base_s2v_config w2v vocab indexed_sentences of
        (c, eff_sentences, eff_words) \<Rightarrow>
          (compute_base_sentence_averages c eff_sentences, eff_sentences, eff_words))"

definition train_average_cy_ft ::
  "(string \<Rightarrow> nat \<Rightarrow> nat \<Rightarrow> string list) \<Rightarrow> (string \<Rightarrow> nat) \<Rightarrow> FTSentenceVecsConfig \<Rightarrow> vocab
     \<Rightarrow> IndexedSentence list \<Rightarrow> (FTSentenceVecsConfig \<times> nat \<times> nat)" where
  "train_average_cy_ft cnb fhb ft vocab indexed_sentences =
     (case populate_ft_s2v_config cnb fhb ft vocab indexed_sentences of
        (c, eff_sentences, eff_words) \<Rightarrow>
          (compute_ft_sentence_averages c eff_sentences, eff_sentences, eff_words))"

text \<open>The plain branch over an arbitrary arithmetic.\<close>

definition train_average_cy_base_ar ::
  "'r REAL_arith \<Rightarrow> ('r, 'a) BaseSentenceVecsConfig_scheme \<Rightarrow> vocab \<Rightarrow> IndexedSentence list
     \<Rightarrow> (('r, 'a) BaseSentenceVecsConfig_scheme \<times> nat \<times> nat)" where
  "train_average_cy_base_ar ar w2v vocab indexed_sentences =
     (case populate_base_s2v_config w2v vocab indexed_sentences of
        (c, eff_sentences, eff_words) \<Rightarrow>
          (compute_base_sentence_averages_ar ar c eff_sentences, eff_sentences, eff_words))"

subsection \<open>Single precision\<close>

text \<open>
  The real numbers that IEEE 754 binary32 represents: a significand of at most 24 bits
  times a power of two from \<open>2^-149\<close> to \<open>2^104\<close>. \<open>float32_normal\<close> leaves out the
  subnormal ones, which an arithmetic may flush to zero.
\<close>

definition float32 :: "real set" where
  "float32 = {x. \<exists>(m::int) (e::nat). \<bar>m\<bar> < 2 ^ 24 \<and>
     ((e \<le> 104 \<and> x = real_of_int m * 2 ^ e) \<or> (e \<le> 149 \<and> x = real_of_int m / 2 ^ e))}"

definition float32_normal :: "real set" where
  "float32_normal = {x \<in> float32. x = 0 \<or> 1 / 2 ^ 126 \<le> \<bar>x\<bar>}"

text \<open>
  \<open>y\<close> is a binary32 value nearest to the real \<open>x\<close>: what the decimal \<open>x\<close> is once
  stored in a \<open>REAL_t\<close>.
\<close>

definition nearest_float32 :: "real \<Rightarrow> real \<Rightarrow> bool" where
  "nearest_float32 x y \<longleftrightarrow> y \<in> float32 \<and> (\<forall>z\<in>float32. \<bar>x - y\<bar> \<le> \<bar>x - z\<bar>)"

text \<open>
  An arithmetic on the reals that is exact where single precision is: on operands that are
  zero or normal binary32 values, an operation whose exact result is such a value returns
  it, for \<open>saxpy\<close> when the product is such a value too (so whether the product is
  rounded before the addition makes no difference). The counter \<open>sent_len\<close> is exact up
  to \<open>2^24\<close>. IEEE 754 arithmetic is of this kind in every rounding mode; the arithmetic
  of the real numbers is too.
\<close>

definition exact_when_representable :: "real REAL_arith \<Rightarrow> bool" where
  "exact_when_representable ar \<longleftrightarrow>
     (\<forall>n. 0 < n \<and> n \<le> 2 ^ 24 \<and> 1 / real n \<in> float32_normal \<longrightarrow> one_over ar n = 1 / real n) \<and>
     (\<forall>a x y. a \<in> float32_normal \<and> x \<in> float32_normal \<and> y \<in> float32_normal \<and>
        a * x \<in> float32_normal \<and> y + a * x \<in> float32_normal \<longrightarrow>
        axpy_entry ar a x y = y + a * x) \<and>
     (\<forall>a x. a \<in> float32_normal \<and> x \<in> float32_normal \<and> a * x \<in> float32_normal \<longrightarrow>
        scal_entry ar a x = a * x)"

definition exact_arith :: "real REAL_arith" where
  "exact_arith = \<lparr>one_over = (\<lambda>n. 1 / real n), axpy_entry = (\<lambda>a x y. y + a * x),
     scal_entry = (\<lambda>a x. a * x)\<rparr>"

subsection \<open>Counting what a batch contributes\<close>

text \<open>
  The tokens of a sentence that are in the vocabulary, the number of such tokens in a
  batch, the number of all tokens in a batch, and the number of sentences that have a
  token at all.
\<close>

definition in_vocab :: "vocab \<Rightarrow> string list \<Rightarrow> string list" where
  "in_vocab vocab ts = filter (\<lambda>t. vocab t \<noteq> None) ts"

definition base_retained :: "vocab \<Rightarrow> IndexedSentence list \<Rightarrow> nat" where
  "base_retained vocab batch = sum_list (map (\<lambda>obj. length (in_vocab vocab (words obj))) batch)"

definition ft_total :: "IndexedSentence list \<Rightarrow> nat" where
  "ft_total batch = sum_list (map (\<lambda>obj. length (words obj)) batch)"

definition nonempty_count :: "IndexedSentence list \<Rightarrow> nat" where
  "nonempty_count batch = length (filter (\<lambda>obj. words obj \<noteq> []) batch)"

text \<open>The scratch buffer is zero on the \<open>size\<close> entries the engine clears and uses.\<close>

definition scratch_zero :: "FTSentenceVecsConfig \<Rightarrow> (nat \<Rightarrow> real) \<Rightarrow> bool" where
  "scratch_zero c m = (\<forall>k<size_c c. m k = 0)"

subsection \<open>Concrete inputs\<close>

text \<open>
  The scenario with cat and sat: the vocabulary, a struct with the two embedding rows
  \<open>[1,0]\<close> and \<open>[0,1]\<close>, the weights 1/2 and 3/10 and a zeroed output of two columns,
  the same struct for subword mode, and the sentence.
\<close>

definition cat_sat_vocab :: vocab where
  "cat_sat_vocab = [''cat'' \<mapsto> 0, ''sat'' \<mapsto> 1]"

definition cat_sat_config :: "real BaseSentenceVecsConfig" where
  "cat_sat_config =
     \<lparr>workers = 1, size_c = 2,
      word_vectors = (\<lambda>k. if k = 0 \<or> k = 3 then 1 else 0),
      word_weights = (\<lambda>i. if i = 0 then 1 / 2 else if i = 1 then 3 / 10 else 0),
      sentence_vectors = (\<lambda>k. 0),
      word_indices = (\<lambda>i. 0), sent_adresses = (\<lambda>i. 0), sentence_boundary = (\<lambda>i. 0)\<rparr>"

definition cat_sat_ft_config :: FTSentenceVecsConfig where
  "cat_sat_ft_config =
     BaseSentenceVecsConfig.extend cat_sat_config
       (FTSentenceVecsConfig.fields 3 6 10 (1 / 2) (\<lambda>k. 0) (\<lambda>i. 0) (\<lambda>i. 0) (\<lambda>k. 0))"

definition cat_sat_sentence :: IndexedSentence where
  "cat_sat_sentence = \<lparr>words = [''cat'', ''sat''], index = 0\<rparr>"

text \<open>
  Sentences at the edges: one unknown token for row 0, 10001 times the token cat, the
  unknown token dog for row 0 and for row 1, and no token for row 1.
\<close>

definition oov_sentence :: IndexedSentence where
  "oov_sentence = \<lparr>words = [''x''], index = 0\<rparr>"

definition long_sentence :: IndexedSentence where
  "long_sentence = \<lparr>words = replicate 10001 ''cat'', index = 0\<rparr>"


definition unknown_sentence :: IndexedSentence where
  "unknown_sentence = \<lparr>words = [''dog''], index = 1\<rparr>"

definition empty_sentence :: IndexedSentence where
  "empty_sentence = \<lparr>words = [], index = 1\<rparr>"

text \<open>
  Stand-ins for the n-gram functions of gensim: a decomposition that yields no n-gram,
  with a constant hash, and the decomposition of a token into its letters, with the hashes
  1, 2, 3 for the letters a, b, c and 4 for any other.
\<close>

definition no_ngrams :: "string \<Rightarrow> nat \<Rightarrow> nat \<Rightarrow> string list" where
  "no_ngrams token lo hi = []"

definition zero_hash :: "string \<Rightarrow> nat" where
  "zero_hash n = 0"

definition letters :: "string \<Rightarrow> nat \<Rightarrow> nat \<Rightarrow> string list" where
  "letters token lo hi = map (\<lambda>ch. [ch]) token"

definition letter_hash :: "string \<Rightarrow> nat" where
  "letter_hash n = (if n = ''a'' then 1 else if n = ''b'' then 2 else if n = ''c'' then 3 else 4)"

text \<open>
  A subword struct of two columns whose n-gram rows 1 to 4 are \<open>[2,0]\<close>, \<open>[0,2]\<close>,
  \<open>[4,0]\<close> and \<open>[0,4]\<close>, a sentence of two unknown tokens and a sentence of a known and
  an unknown token, with the structs the populator makes of them.
\<close>

definition two_oov_config :: FTSentenceVecsConfig where
  "two_oov_config =
     \<lparr>workers = 1, size_c = 2,
      word_vectors = (\<lambda>k. 0), word_weights = (\<lambda>i. 1),
      sentence_vectors = (\<lambda>k. 0),
      word_indices = (\<lambda>i. 0), sent_adresses = (\<lambda>i. 0), sentence_boundary = (\<lambda>i. 0),
      min_n = 1, max_n = 1, bucket = 10, oov_weight = 1,
      mem = (\<lambda>k. 0), subwords_idx = (\<lambda>i. 0), subwords_idx_len = (\<lambda>i. 0),
      ngram_vectors = (\<lambda>k. if k = 2 \<or> k = 5 then 2 else if k = 6 \<or> k = 9 then 4 else 0)\<rparr>"

definition two_oov_sentence :: IndexedSentence where
  "two_oov_sentence = \<lparr>words = [''ab'', ''cd''], index = 0\<rparr>"

definition two_oov_populated :: FTSentenceVecsConfig where
  "two_oov_populated =
     fst (populate_ft_s2v_config letters letter_hash two_oov_config Map.empty [two_oov_sentence])"



text \<open>
  The scenario with cat and sat as the single-precision arrays hold it: the weight 0.3 is
  the binary32 value nearest to it, \<open>5033165 / 2^24\<close>; 1/2, 0 and 1 are binary32 values.
\<close>

definition cat_sat_config_f32 :: "real BaseSentenceVecsConfig" where
  "cat_sat_config_f32 =
     \<lparr>workers = 1, size_c = 2,
      word_vectors = (\<lambda>k. if k = 0 \<or> k = 3 then 1 else 0),
      word_weights = (\<lambda>i. if i = 0 then 1 / 2 else if i = 1 then 5033165 / 16777216 else 0),
      sentence_vectors = (\<lambda>k. 0),
      word_indices = (\<lambda>i. 0), sent_adresses = (\<lambda>i. 0), sentence_boundary = (\<lambda>i. 0)\<rparr>"

text \<open>
  An arithmetic that records the operations instead of rounding them: a value is the list
  of the source entries accumulated so far. With it, a struct whose embedding entry at
  offset \<open>k\<close> is \<open>[k]\<close>, and the sentence sat cat.
\<close>

definition trace_arith :: "nat list REAL_arith" where
  "trace_arith = \<lparr>one_over = (\<lambda>n. []), axpy_entry = (\<lambda>a x y. y @ x), scal_entry = (\<lambda>a x. x)\<rparr>"

definition trace_config :: "nat list BaseSentenceVecsConfig" where
  "trace_config =
     \<lparr>workers = 1, size_c = 2,
      word_vectors = (\<lambda>k. [k]), word_weights = (\<lambda>i. []), sentence_vectors = (\<lambda>k. []),
      word_indices = (\<lambda>i. 0), sent_adresses = (\<lambda>i. 0), sentence_boundary = (\<lambda>i. 0)\<rparr>"

definition sat_cat_sentence :: IndexedSentence where
  "sat_cat_sentence = \<lparr>words = [''sat'', ''cat''], index = 0\<rparr>"

section \<open>Properties of the plain populator\<close>

lemma in_vocab_simps [simp]:
  "in_vocab vocab [] = []"
  "vocab t = None \<Longrightarrow> in_vocab vocab (t # ts) = in_vocab vocab ts"
  "vocab t = Some v \<Longrightarrow> in_vocab vocab (t # ts) = t # in_vocab vocab ts"
  by (simp_all add: in_vocab_def)

lemma in_vocab_append [simp]: "in_vocab vocab (xs @ ys) = in_vocab vocab xs @ in_vocab vocab ys"
  by (simp add: in_vocab_def)

lemma base_retained_simps [simp]:
  "base_retained vocab [] = 0"
  "base_retained vocab (obj # rest) = length (in_vocab vocab (words obj)) + base_retained vocab rest"
  by (simp_all add: base_retained_def)

lemma base_retained_append [simp]:
  "base_retained vocab (xs @ ys) = base_retained vocab xs + base_retained vocab ys"
  by (simp add: base_retained_def)

lemma base_tokens_count:
  "w < MAX_WORDS \<Longrightarrow>
   snd (populate_base_tokens vocab idx ts (c, w)) = min MAX_WORDS (w + length (in_vocab vocab ts))"
proof (induction ts arbitrary: c w)
  case Nil
  then show ?case by simp
next
  case (Cons t ts)
  show ?case
  proof (cases "vocab t")
    case None
    then show ?thesis using Cons by simp
  next
    case (Some v)
    show ?thesis
    proof (cases "w + 1 = MAX_WORDS")
      case True
      then show ?thesis using Some by (simp add: Let_def)
    next
      case False
      then have "w + 1 < MAX_WORDS" using Cons.prems by simp
      from Cons.IH[OF this] show ?thesis using Some False by (simp add: Let_def)
    qed
  qed
qed

lemma base_tokens_filter:
  "populate_base_tokens vocab idx ts (c, w) = populate_base_tokens vocab idx (in_vocab vocab ts) (c, w)"
proof (induction ts arbitrary: c w)
  case Nil
  then show ?case by simp
next
  case (Cons t ts)
  then show ?case by (cases "vocab t") (simp_all add: Let_def)
qed

lemma base_tokens_append:
  "w < MAX_WORDS \<Longrightarrow>
   populate_base_tokens vocab idx (ts1 @ ts2) (c, w) =
     (if snd (populate_base_tokens vocab idx ts1 (c, w)) = MAX_WORDS
      then populate_base_tokens vocab idx ts1 (c, w)
      else populate_base_tokens vocab idx ts2 (populate_base_tokens vocab idx ts1 (c, w)))"
proof (induction ts1 arbitrary: c w)
  case Nil
  then show ?case by simp
next
  case (Cons t ts)
  show ?case
  proof (cases "vocab t")
    case None
    then show ?thesis using Cons by simp
  next
    case (Some v)
    show ?thesis
    proof (cases "w + 1 = MAX_WORDS")
      case True
      then show ?thesis using Some by (simp add: Let_def)
    next
      case False
      then have "w + 1 < MAX_WORDS" using Cons.prems by simp
      from Cons.IH[OF this] show ?thesis using Some False by (simp add: Let_def)
    qed
  qed
qed

lemma nonempty_count_simps [simp]:
  "nonempty_count [] = 0"
  "words obj = [] \<Longrightarrow> nonempty_count (obj # rest) = nonempty_count rest"
  "words obj \<noteq> [] \<Longrightarrow> nonempty_count (obj # rest) = Suc (nonempty_count rest)"
  by (simp_all add: nonempty_count_def)

lemma base_sentences_counts:
  "w < MAX_WORDS \<Longrightarrow>
   snd (snd (populate_base_sentences vocab batch (c, s, w))) = min MAX_WORDS (w + base_retained vocab batch)"
proof (induction batch arbitrary: c s w)
  case Nil
  then show ?case by simp
next
  case (Cons obj rest)
  show ?case
  proof (cases "words obj = []")
    case True
    then show ?thesis using Cons by simp
  next
    case False
    obtain c1 w1 where r: "populate_base_tokens vocab (index obj) (words obj) (c, w) = (c1, w1)"
      by (cases "populate_base_tokens vocab (index obj) (words obj) (c, w)")
    have w1: "w1 = min MAX_WORDS (w + length (in_vocab vocab (words obj)))"
      using base_tokens_count[OF Cons.prems, of vocab "index obj" "words obj" c] r by simp
    show ?thesis
    proof (cases "w1 = MAX_WORDS")
      case True
      then show ?thesis using False r w1 by (simp add: Let_def)
    next
      case ne: False
      then have lt: "w1 < MAX_WORDS" using w1 by simp
      from Cons.IH[OF lt] show ?thesis using False r w1 ne by (simp add: Let_def add.assoc)
    qed
  qed
qed

lemma base_tokens_all_oov:
  "in_vocab vocab ts = [] \<Longrightarrow> populate_base_tokens vocab idx ts (c, w) = (c, w)"
  using base_tokens_filter[of vocab idx ts c w] by simp

lemma base_sentences_all_oov:
  "words obj \<noteq> [] \<Longrightarrow> in_vocab vocab (words obj) = [] \<Longrightarrow> w \<noteq> MAX_WORDS \<Longrightarrow>
   snd (populate_base_sentences vocab (replicate n obj) (c, s, w)) = (s + n, w)"
  by (induction n arbitrary: c s) (simp_all add: base_tokens_all_oov Let_def)

section \<open>Properties of the subword populator, and where the populators stop\<close>

lemma ft_total_simps [simp]:
  "ft_total [] = 0"
  "ft_total (obj # rest) = length (words obj) + ft_total rest"
  by (simp_all add: ft_total_def)

lemma ft_total_append [simp]: "ft_total (xs @ ys) = ft_total xs + ft_total ys"
  by (simp add: ft_total_def)

lemma ft_tokens_count:
  "w < MAX_WORDS \<Longrightarrow>
   snd (populate_ft_tokens cnb fhb vocab idx ts (c, w)) = min MAX_WORDS (w + length ts)"
proof (induction ts arbitrary: c w)
  case Nil
  then show ?case by simp
next
  case (Cons t ts)
  show ?case
  proof (cases "w + 1 = MAX_WORDS")
    case True
    then show ?thesis by (simp add: Let_def)
  next
    case False
    then have "w + 1 < MAX_WORDS" using Cons.prems by simp
    from Cons.IH[OF this] show ?thesis using False by (simp add: Let_def)
  qed
qed

lemma ft_sentences_counts:
  "w < MAX_WORDS \<Longrightarrow>
   snd (snd (populate_ft_sentences cnb fhb vocab batch (c, s, w))) = min MAX_WORDS (w + ft_total batch)"
proof (induction batch arbitrary: c s w)
  case Nil
  then show ?case by simp
next
  case (Cons obj rest)
  show ?case
  proof (cases "words obj = []")
    case True
    then show ?thesis using Cons by simp
  next
    case False
    obtain c1 w1 where r: "populate_ft_tokens cnb fhb vocab (index obj) (words obj) (c, w) = (c1, w1)"
      by (cases "populate_ft_tokens cnb fhb vocab (index obj) (words obj) (c, w)")
    have w1: "w1 = min MAX_WORDS (w + length (words obj))"
      using ft_tokens_count[OF Cons.prems, of cnb fhb vocab "index obj" "words obj" c] r by simp
    show ?thesis
    proof (cases "w1 = MAX_WORDS")
      case True
      then show ?thesis using False r w1 by (simp add: Let_def)
    next
      case ne: False
      then have lt: "w1 < MAX_WORDS" using w1 by simp
      from Cons.IH[OF lt] show ?thesis using False r w1 ne by (simp add: Let_def add.assoc)
    qed
  qed
qed

text \<open>Where the token loop stops: the tokens up to the one that fills the last slot.\<close>

lemma base_tokens_cutoff:
  "w < MAX_WORDS \<Longrightarrow> MAX_WORDS \<le> w + length (in_vocab vocab ts) \<Longrightarrow>
   \<exists>ts1 ts2. ts = ts1 @ ts2 \<and> ts1 \<noteq> [] \<and> vocab (last ts1) \<noteq> None \<and>
     w + length (in_vocab vocab ts1) = MAX_WORDS \<and>
     (\<forall>ts3. populate_base_tokens vocab idx (ts1 @ ts3) (c, w) = populate_base_tokens vocab idx ts1 (c, w))"
proof (induction ts arbitrary: c w)
  case Nil
  then show ?case by simp
next
  case (Cons t ts)
  show ?case
  proof (cases "vocab t")
    case None
    from Cons.IH[of w c] Cons.prems None obtain ts1 ts2 where
      h: "ts = ts1 @ ts2" "ts1 \<noteq> []" "vocab (last ts1) \<noteq> None"
         "w + length (in_vocab vocab ts1) = MAX_WORDS"
         "\<forall>ts3. populate_base_tokens vocab idx (ts1 @ ts3) (c, w) = populate_base_tokens vocab idx ts1 (c, w)"
      by auto
    show ?thesis
      apply (rule exI[of _ "t # ts1"], rule exI[of _ ts2])
      using h None by simp
  next
    case (Some v)
    show ?thesis
    proof (cases "w + 1 = MAX_WORDS")
      case True
      show ?thesis
        apply (rule exI[of _ "[t]"], rule exI[of _ ts])
        using Some True by (simp add: Let_def)
    next
      case False
      then have lt: "w + 1 < MAX_WORDS" using Cons.prems by simp
      let ?c2 = "c\<lparr>word_indices := (word_indices c)(w := v), sent_adresses := (sent_adresses c)(w := idx)\<rparr>"
      from Cons.IH[OF lt, of ?c2] Cons.prems Some obtain ts1 ts2 where
        h: "ts = ts1 @ ts2" "ts1 \<noteq> []" "vocab (last ts1) \<noteq> None"
           "w + 1 + length (in_vocab vocab ts1) = MAX_WORDS"
           "\<forall>ts3. populate_base_tokens vocab idx (ts1 @ ts3) (?c2, w + 1) = populate_base_tokens vocab idx ts1 (?c2, w + 1)"
        by auto
      show ?thesis
        apply (rule exI[of _ "t # ts1"], rule exI[of _ ts2])
        using h Some False by (simp add: Let_def)
    qed
  qed
qed

lemma base_sentences_cutoff:
  "w < MAX_WORDS \<Longrightarrow> MAX_WORDS \<le> w + base_retained vocab batch \<Longrightarrow>
   \<exists>pre obj post ts1 ts2. batch = pre @ obj # post \<and> words obj = ts1 @ ts2 \<and> ts1 \<noteq> [] \<and>
     vocab (last ts1) \<noteq> None \<and>
     w + base_retained vocab pre + length (in_vocab vocab ts1) = MAX_WORDS \<and>
     (\<forall>ts3 post'. populate_base_sentences vocab (pre @ obj\<lparr>words := ts1 @ ts3\<rparr> # post') (c, s, w) =
        populate_base_sentences vocab (pre @ [obj\<lparr>words := ts1\<rparr>]) (c, s, w)) \<and>
     snd (populate_base_sentences vocab (pre @ [obj\<lparr>words := ts1\<rparr>]) (c, s, w)) =
       (s + nonempty_count pre + 1, MAX_WORDS)"
proof (induction batch arbitrary: c s w)
  case Nil
  then show ?case by simp
next
  case (Cons ob rest)
  show ?case
  proof (cases "words ob = []")
    case True
    from Cons.IH[of w c s] Cons.prems True obtain pre obj post ts1 ts2 where
      h: "rest = pre @ obj # post" "words obj = ts1 @ ts2" "ts1 \<noteq> []" "vocab (last ts1) \<noteq> None"
         "w + base_retained vocab pre + length (in_vocab vocab ts1) = MAX_WORDS"
         "\<forall>ts3 post'. populate_base_sentences vocab (pre @ obj\<lparr>words := ts1 @ ts3\<rparr> # post') (c, s, w) =
            populate_base_sentences vocab (pre @ [obj\<lparr>words := ts1\<rparr>]) (c, s, w)"
         "snd (populate_base_sentences vocab (pre @ [obj\<lparr>words := ts1\<rparr>]) (c, s, w)) =
            (s + nonempty_count pre + 1, MAX_WORDS)"
      by auto
    show ?thesis
      apply (rule exI[of _ "ob # pre"], rule exI[of _ obj], rule exI[of _ post],
             rule exI[of _ ts1], rule exI[of _ ts2])
      using h True by simp
  next
    case ne: False
    let ?k = "length (in_vocab vocab (words ob))"
    show ?thesis
    proof (cases "MAX_WORDS \<le> w + ?k")
      case True
      from base_tokens_cutoff[OF Cons.prems(1) True, of "index ob" c] obtain ts1 ts2 where
        h: "words ob = ts1 @ ts2" "ts1 \<noteq> []" "vocab (last ts1) \<noteq> None"
           "w + length (in_vocab vocab ts1) = MAX_WORDS"
           "\<forall>ts3. populate_base_tokens vocab (index ob) (ts1 @ ts3) (c, w) =
              populate_base_tokens vocab (index ob) ts1 (c, w)"
        by auto
      obtain c1 w1 where r: "populate_base_tokens vocab (index ob) ts1 (c, w) = (c1, w1)"
        by (cases "populate_base_tokens vocab (index ob) ts1 (c, w)")
      have w1: "w1 = MAX_WORDS"
        using base_tokens_count[OF Cons.prems(1), of vocab "index ob" ts1 c] r h(4) by simp
      show ?thesis
        apply (rule exI[of _ "[]"], rule exI[of _ ob], rule exI[of _ rest],
               rule exI[of _ ts1], rule exI[of _ ts2])
        using h r w1 by (simp add: Let_def)
    next
      case False
      obtain c1 w1 where r: "populate_base_tokens vocab (index ob) (words ob) (c, w) = (c1, w1)"
        by (cases "populate_base_tokens vocab (index ob) (words ob) (c, w)")
      have w1: "w1 = w + ?k"
        using base_tokens_count[OF Cons.prems(1), of vocab "index ob" "words ob" c] r False by simp
      have lt: "w1 < MAX_WORDS" using w1 False by simp
      have ge: "MAX_WORDS \<le> w1 + base_retained vocab rest" using w1 Cons.prems(2) by simp
      let ?c2 = "c1\<lparr>sentence_boundary := (sentence_boundary c1)(s + 1 := w1)\<rparr>"
      from Cons.IH[OF lt ge, of ?c2 "s + 1"] obtain pre obj post ts1 ts2 where
        h: "rest = pre @ obj # post" "words obj = ts1 @ ts2" "ts1 \<noteq> []" "vocab (last ts1) \<noteq> None"
           "w1 + base_retained vocab pre + length (in_vocab vocab ts1) = MAX_WORDS"
           "\<forall>ts3 post'. populate_base_sentences vocab (pre @ obj\<lparr>words := ts1 @ ts3\<rparr> # post') (?c2, s + 1, w1) =
              populate_base_sentences vocab (pre @ [obj\<lparr>words := ts1\<rparr>]) (?c2, s + 1, w1)"
           "snd (populate_base_sentences vocab (pre @ [obj\<lparr>words := ts1\<rparr>]) (?c2, s + 1, w1)) =
              (s + 1 + nonempty_count pre + 1, MAX_WORDS)"
        by auto
      show ?thesis
        apply (rule exI[of _ "ob # pre"], rule exI[of _ obj], rule exI[of _ post],
               rule exI[of _ ts1], rule exI[of _ ts2])
        using h ne r w1 lt by (simp add: Let_def)
    qed
  qed
qed

lemma ft_tokens_cutoff:
  "w < MAX_WORDS \<Longrightarrow> MAX_WORDS \<le> w + length ts \<Longrightarrow>
   \<exists>ts1 ts2. ts = ts1 @ ts2 \<and> ts1 \<noteq> [] \<and> w + length ts1 = MAX_WORDS \<and>
     (\<forall>c ts3. populate_ft_tokens cnb fhb vocab idx (ts1 @ ts3) (c, w) =
        populate_ft_tokens cnb fhb vocab idx ts1 (c, w))"
proof (induction ts arbitrary: w)
  case Nil
  then show ?case by simp
next
  case (Cons t ts)
  show ?case
  proof (cases "w + 1 = MAX_WORDS")
    case True
    show ?thesis
      apply (rule exI[of _ "[t]"], rule exI[of _ ts])
      using True by (simp add: Let_def)
  next
    case False
    then have lt: "w + 1 < MAX_WORDS" using Cons.prems by simp
    from Cons.IH[OF lt] Cons.prems obtain ts1 ts2 where
      h: "ts = ts1 @ ts2" "ts1 \<noteq> []" "w + 1 + length ts1 = MAX_WORDS"
         "\<forall>c ts3. populate_ft_tokens cnb fhb vocab idx (ts1 @ ts3) (c, w + 1) =
            populate_ft_tokens cnb fhb vocab idx ts1 (c, w + 1)"
      by auto
    show ?thesis
      apply (rule exI[of _ "t # ts1"], rule exI[of _ ts2])
      using h False by (simp add: Let_def)
  qed
qed

lemma ft_sentences_Cons:
  "words obj \<noteq> [] \<Longrightarrow>
   populate_ft_sentences cnb fhb vocab (obj # rest) (c, s, w) =
     (let r = populate_ft_tokens cnb fhb vocab (index obj) (words obj) (c, w);
          c2 = (fst r)\<lparr>sentence_boundary := (sentence_boundary (fst r))(s + 1 := snd r)\<rparr>
      in if snd r = MAX_WORDS then (c2, s + 1, snd r)
         else populate_ft_sentences cnb fhb vocab rest (c2, s + 1, snd r))"
  by (simp add: Let_def split: prod.splits)

lemma base_sentences_Cons:
  "words obj \<noteq> [] \<Longrightarrow>
   populate_base_sentences vocab (obj # rest) (c, s, w) =
     (let r = populate_base_tokens vocab (index obj) (words obj) (c, w);
          c2 = (fst r)\<lparr>sentence_boundary := (sentence_boundary (fst r))(s + 1 := snd r)\<rparr>
      in if snd r = MAX_WORDS then (c2, s + 1, snd r)
         else populate_base_sentences vocab rest (c2, s + 1, snd r))"
  by (simp add: Let_def split: prod.splits)

lemma ft_sentences_cutoff:
  "w < MAX_WORDS \<Longrightarrow> MAX_WORDS \<le> w + ft_total batch \<Longrightarrow>
   \<exists>pre obj post ts1 ts2. batch = pre @ obj # post \<and> words obj = ts1 @ ts2 \<and> ts1 \<noteq> [] \<and>
     w + ft_total pre + length ts1 = MAX_WORDS \<and>
     (\<forall>c s ts3 post'.
        populate_ft_sentences cnb fhb vocab (pre @ obj\<lparr>words := ts1 @ ts3\<rparr> # post') (c, s, w) =
        populate_ft_sentences cnb fhb vocab (pre @ [obj\<lparr>words := ts1\<rparr>]) (c, s, w)) \<and>
     (\<forall>c s. snd (populate_ft_sentences cnb fhb vocab (pre @ [obj\<lparr>words := ts1\<rparr>]) (c, s, w)) =
        (s + nonempty_count pre + 1, MAX_WORDS))"
proof (induction batch arbitrary: w)
  case Nil
  then show ?case by simp
next
  case (Cons ob rest)
  show ?case
  proof (cases "words ob = []")
    case True
    from Cons.IH[of w] Cons.prems True obtain pre obj post ts1 ts2 where
      h: "rest = pre @ obj # post" "words obj = ts1 @ ts2" "ts1 \<noteq> []"
         "w + ft_total pre + length ts1 = MAX_WORDS"
         "\<forall>c s ts3 post'.
            populate_ft_sentences cnb fhb vocab (pre @ obj\<lparr>words := ts1 @ ts3\<rparr> # post') (c, s, w) =
            populate_ft_sentences cnb fhb vocab (pre @ [obj\<lparr>words := ts1\<rparr>]) (c, s, w)"
         "\<forall>c s. snd (populate_ft_sentences cnb fhb vocab (pre @ [obj\<lparr>words := ts1\<rparr>]) (c, s, w)) =
            (s + nonempty_count pre + 1, MAX_WORDS)"
      by auto
    show ?thesis
      apply (rule exI[of _ "ob # pre"], rule exI[of _ obj], rule exI[of _ post],
             rule exI[of _ ts1], rule exI[of _ ts2])
      using h True by simp
  next
    case ne: False
    let ?k = "length (words ob)"
    show ?thesis
    proof (cases "MAX_WORDS \<le> w + ?k")
      case True
      from ft_tokens_cutoff[OF Cons.prems(1) True, of cnb fhb vocab "index ob"] obtain ts1 ts2 where
        h: "words ob = ts1 @ ts2" "ts1 \<noteq> []" "w + length ts1 = MAX_WORDS"
           "\<forall>c ts3. populate_ft_tokens cnb fhb vocab (index ob) (ts1 @ ts3) (c, w) =
              populate_ft_tokens cnb fhb vocab (index ob) ts1 (c, w)"
        by auto
      have w1: "\<And>c. snd (populate_ft_tokens cnb fhb vocab (index ob) ts1 (c, w)) = MAX_WORDS"
        using ft_tokens_count[OF Cons.prems(1), of cnb fhb vocab "index ob" ts1] h(3) by simp
      show ?thesis
        apply (rule exI[of _ "[]"], rule exI[of _ ob], rule exI[of _ rest],
               rule exI[of _ ts1], rule exI[of _ ts2])
        using h w1 by (simp add: ft_sentences_Cons Let_def del: populate_ft_sentences.simps(2))
    next
      case False
      have w1: "\<And>c. snd (populate_ft_tokens cnb fhb vocab (index ob) (words ob) (c, w)) = w + ?k"
        using ft_tokens_count[OF Cons.prems(1), of cnb fhb vocab "index ob" "words ob"] False by simp
      have lt: "w + ?k < MAX_WORDS" using False by simp
      have ge: "MAX_WORDS \<le> w + ?k + ft_total rest" using Cons.prems(2) by simp
      from Cons.IH[OF lt ge] obtain pre obj post ts1 ts2 where
        h: "rest = pre @ obj # post" "words obj = ts1 @ ts2" "ts1 \<noteq> []"
           "w + ?k + ft_total pre + length ts1 = MAX_WORDS"
           "\<forall>c s ts3 post'.
              populate_ft_sentences cnb fhb vocab (pre @ obj\<lparr>words := ts1 @ ts3\<rparr> # post') (c, s, w + ?k) =
              populate_ft_sentences cnb fhb vocab (pre @ [obj\<lparr>words := ts1\<rparr>]) (c, s, w + ?k)"
           "\<forall>c s. snd (populate_ft_sentences cnb fhb vocab (pre @ [obj\<lparr>words := ts1\<rparr>]) (c, s, w + ?k)) =
              (s + nonempty_count pre + 1, MAX_WORDS)"
        by auto
      show ?thesis
        apply (rule exI[of _ "ob # pre"], rule exI[of _ obj], rule exI[of _ post],
               rule exI[of _ ts1], rule exI[of _ ts2])
        using h ne w1 lt
        by (simp add: ft_sentences_Cons Let_def add.assoc del: populate_ft_sentences.simps(2))
    qed
  qed
qed

lemma in_vocab_cat_replicate: "in_vocab cat_sat_vocab (replicate n ''cat'') = replicate n ''cat''"
  by (simp add: in_vocab_def cat_sat_vocab_def)

section \<open>What the populators leave in the struct\<close>

lemma base_tokens_frame:
  "populate_base_tokens vocab idx ts (c, w) = (c', w') \<Longrightarrow>
   w \<le> w' \<and> sentence_boundary c' = sentence_boundary c \<and> size_c c' = size_c c \<and>
   word_vectors c' = word_vectors c \<and> word_weights c' = word_weights c \<and>
   sentence_vectors c' = sentence_vectors c \<and>
   (\<forall>i. i < w \<longrightarrow> word_indices c' i = word_indices c i \<and> sent_adresses c' i = sent_adresses c i)"
proof (induction ts arbitrary: c w)
  case Nil
  then show ?case by simp
next
  case (Cons t ts)
  show ?case
  proof (cases "vocab t")
    case None
    then show ?thesis using Cons by simp
  next
    case (Some v)
    show ?thesis
    proof (cases "w + 1 = MAX_WORDS")
      case True
      then show ?thesis using Some Cons.prems by (auto simp: Let_def)
    next
      case False
      let ?c2 = "c\<lparr>word_indices := (word_indices c)(w := v), sent_adresses := (sent_adresses c)(w := idx)\<rparr>"
      have "populate_base_tokens vocab idx ts (?c2, w + 1) = (c', w')"
        using Cons.prems Some False by (simp add: Let_def)
      from Cons.IH[OF this] show ?thesis by auto
    qed
  qed
qed

lemma base_sentences_invariant:
  "populate_base_sentences vocab batch (c, s, w) = (c', s', w') \<Longrightarrow>
   w < MAX_WORDS \<Longrightarrow> sentence_boundary c s = w \<Longrightarrow>
   s \<le> s' \<and> w \<le> w' \<and> w' \<le> MAX_WORDS \<and> sentence_boundary c' s' = w' \<and>
   (\<forall>j. j \<le> s \<longrightarrow> sentence_boundary c' j = sentence_boundary c j) \<and>
   (\<forall>j. s \<le> j \<and> j < s' \<longrightarrow> sentence_boundary c' j \<le> sentence_boundary c' (j + 1)) \<and>
   (\<forall>j. s \<le> j \<and> j \<le> s' \<longrightarrow> w \<le> sentence_boundary c' j \<and> sentence_boundary c' j \<le> w')"
proof (induction batch arbitrary: c s w)
  case Nil
  then show ?case by (auto simp: le_antisym)
next
  case (Cons ob rest)
  show ?case
  proof (cases "words ob = []")
    case True
    then show ?thesis using Cons by simp
  next
    case ne: False
    obtain c1 w1 where r: "populate_base_tokens vocab (index ob) (words ob) (c, w) = (c1, w1)"
      by (cases "populate_base_tokens vocab (index ob) (words ob) (c, w)")
    note f = base_tokens_frame[OF r]
    have w1: "w1 \<le> MAX_WORDS"
      using base_tokens_count[OF Cons.prems(2), of vocab "index ob" "words ob" c] r by simp
    let ?c2 = "c1\<lparr>sentence_boundary := (sentence_boundary c1)(s + 1 := w1)\<rparr>"
    show ?thesis
    proof (cases "w1 = MAX_WORDS")
      case True
      then have e: "c' = ?c2 \<and> s' = s + 1 \<and> w' = w1"
        using Cons.prems(1) ne r by (auto simp: Let_def)
      have b0: "sentence_boundary c' s = w" using e f Cons.prems(3) by simp
      have b1: "sentence_boundary c' (s + 1) = w1" using e by simp
      have mono: "\<And>j. s \<le> j \<and> j < s' \<Longrightarrow> sentence_boundary c' j \<le> sentence_boundary c' (j + 1)"
      proof -
        fix j assume "s \<le> j \<and> j < s'"
        then have "j = s" using e by simp
        then show "sentence_boundary c' j \<le> sentence_boundary c' (j + 1)" using b0 b1 f by simp
      qed
      have rng: "\<And>j. s \<le> j \<and> j \<le> s' \<Longrightarrow> w \<le> sentence_boundary c' j \<and> sentence_boundary c' j \<le> w'"
      proof -
        fix j assume "s \<le> j \<and> j \<le> s'"
        then have "j = s \<or> j = s + 1" using e by auto
        then show "w \<le> sentence_boundary c' j \<and> sentence_boundary c' j \<le> w'"
          using b0 b1 f e by auto
      qed
      have keep: "\<And>j. j \<le> s \<Longrightarrow> sentence_boundary c' j = sentence_boundary c j"
        using e f by simp
      show ?thesis using e f w1 b1 mono rng keep by simp
    next
      case False
      then have lt: "w1 < MAX_WORDS" using w1 by simp
      have rec: "populate_base_sentences vocab rest (?c2, s + 1, w1) = (c', s', w')"
        using Cons.prems(1) ne r False by (simp add: Let_def)
      have b: "sentence_boundary ?c2 (s + 1) = w1" by simp
      note ih = Cons.IH[OF rec lt b]
      have keep: "\<And>j. j \<le> s \<Longrightarrow> sentence_boundary c' j = sentence_boundary c j"
        using ih f by simp
      have s1: "sentence_boundary c' (s + 1) = w1" using ih by simp
      have s0: "sentence_boundary c' s = w" using keep[of s] Cons.prems(3) by simp
      have mono: "\<And>j. s \<le> j \<Longrightarrow> j < s' \<Longrightarrow> sentence_boundary c' j \<le> sentence_boundary c' (j + 1)"
      proof -
        fix j assume j: "s \<le> j" "j < s'"
        show "sentence_boundary c' j \<le> sentence_boundary c' (j + 1)"
        proof (cases "j = s")
          case True
          then show ?thesis using s0 s1 f by simp
        next
          case False
          then have "s + 1 \<le> j" using j by simp
          then show ?thesis using ih j by blast
        qed
      qed
      have rng: "\<And>j. s \<le> j \<Longrightarrow> j \<le> s' \<Longrightarrow> w \<le> sentence_boundary c' j \<and> sentence_boundary c' j \<le> w'"
      proof -
        fix j assume j: "s \<le> j" "j \<le> s'"
        show "w \<le> sentence_boundary c' j \<and> sentence_boundary c' j \<le> w'"
        proof (cases "j = s")
          case True
          then show ?thesis using s0 ih f by simp
        next
          case False
          then have "s + 1 \<le> j" using j by simp
          then have "w1 \<le> sentence_boundary c' j \<and> sentence_boundary c' j \<le> w'" using ih j by blast
          then show ?thesis using f by simp
        qed
      qed
      show ?thesis using ih f keep mono rng by auto
    qed
  qed
qed

lemma write_subwords_at:
  "write_subwords w i hs a k =
     (if w + i \<le> k \<and> k < w + i + length hs then hs ! (k - (w + i)) else a k)"
proof (induction hs arbitrary: i a)
  case Nil
  then show ?case by simp
next
  case (Cons h hs)
  have ih: "write_subwords w (i + 1) hs (a(w + i := h)) k =
     (if w + (i + 1) \<le> k \<and> k < w + (i + 1) + length hs then hs ! (k - (w + (i + 1)))
      else (a(w + i := h)) k)"
    by (rule Cons.IH)
  show ?case
  proof (cases "k = w + i")
    case True
    then show ?thesis unfolding write_subwords.simps ih by simp
  next
    case False
    then show ?thesis unfolding write_subwords.simps ih by (auto simp: nth_Cons')
  qed
qed

lemma ft_token_frame:
  "sentence_boundary (populate_ft_token cnb fhb vocab idx t c w) = sentence_boundary c \<and>
   size_c (populate_ft_token cnb fhb vocab idx t c w) = size_c c \<and>
   word_vectors (populate_ft_token cnb fhb vocab idx t c w) = word_vectors c \<and>
   word_weights (populate_ft_token cnb fhb vocab idx t c w) = word_weights c \<and>
   sentence_vectors (populate_ft_token cnb fhb vocab idx t c w) = sentence_vectors c \<and>
   mem (populate_ft_token cnb fhb vocab idx t c w) = mem c \<and>
   ngram_vectors (populate_ft_token cnb fhb vocab idx t c w) = ngram_vectors c \<and>
   min_n (populate_ft_token cnb fhb vocab idx t c w) = min_n c \<and>
   max_n (populate_ft_token cnb fhb vocab idx t c w) = max_n c \<and>
   bucket (populate_ft_token cnb fhb vocab idx t c w) = bucket c \<and>
   oov_weight (populate_ft_token cnb fhb vocab idx t c w) = oov_weight c"
  by (cases "vocab t") (simp_all add: populate_ft_token_def Let_def)

lemma ft_token_below:
  "i < w \<Longrightarrow>
   word_indices (populate_ft_token cnb fhb vocab idx t c w) i = word_indices c i \<and>
   sent_adresses (populate_ft_token cnb fhb vocab idx t c w) i = sent_adresses c i \<and>
   subwords_idx_len (populate_ft_token cnb fhb vocab idx t c w) i = subwords_idx_len c i \<and>
   subwords_idx (populate_ft_token cnb fhb vocab idx t c w) i = subwords_idx c i"
  by (cases "vocab t") (simp_all add: populate_ft_token_def Let_def write_subwords_at)

lemma ft_token_len:
  "subwords_idx_len (populate_ft_token cnb fhb vocab idx t c w) w \<le> MAX_NGRAMS"
  by (cases "vocab t") (simp_all add: populate_ft_token_def Let_def)

lemma ft_tokens_frame:
  "populate_ft_tokens cnb fhb vocab idx ts (c, w) = (c', w') \<Longrightarrow>
   w \<le> w' \<and> sentence_boundary c' = sentence_boundary c \<and> size_c c' = size_c c \<and>
   word_vectors c' = word_vectors c \<and> word_weights c' = word_weights c \<and>
   sentence_vectors c' = sentence_vectors c \<and> mem c' = mem c \<and>
   ngram_vectors c' = ngram_vectors c \<and> min_n c' = min_n c \<and> max_n c' = max_n c \<and>
   bucket c' = bucket c \<and> oov_weight c' = oov_weight c \<and>
   (\<forall>i. i < w \<longrightarrow> word_indices c' i = word_indices c i \<and> sent_adresses c' i = sent_adresses c i \<and>
        subwords_idx_len c' i = subwords_idx_len c i \<and> subwords_idx c' i = subwords_idx c i) \<and>
   (\<forall>i. w \<le> i \<and> i < w' \<longrightarrow> subwords_idx_len c' i \<le> MAX_NGRAMS)"
proof (induction ts arbitrary: c w)
  case Nil
  then show ?case by simp
next
  case (Cons t ts)
  define c2 where "c2 = populate_ft_token cnb fhb vocab idx t c w"
  note fr = ft_token_frame[of cnb fhb vocab idx t c w, folded c2_def]
  note lo = ft_token_below[of _ w cnb fhb vocab idx t c, folded c2_def]
  note le = ft_token_len[of cnb fhb vocab idx t c w, folded c2_def]
  show ?case
  proof (cases "w + 1 = MAX_WORDS")
    case True
    then have e: "c' = c2 \<and> w' = w + 1" using Cons.prems by (auto simp: Let_def c2_def)
    have "\<And>i. w \<le> i \<and> i < w' \<Longrightarrow> subwords_idx_len c' i \<le> MAX_NGRAMS"
    proof -
      fix i assume "w \<le> i \<and> i < w'"
      then have "i = w" using e by simp
      then show "subwords_idx_len c' i \<le> MAX_NGRAMS" using e le by simp
    qed
    then show ?thesis using e fr lo by simp
  next
    case False
    have rec: "populate_ft_tokens cnb fhb vocab idx ts (c2, w + 1) = (c', w')"
      using Cons.prems False by (simp add: Let_def c2_def)
    note ih = Cons.IH[OF rec]
    have len: "\<And>i. w \<le> i \<and> i < w' \<Longrightarrow> subwords_idx_len c' i \<le> MAX_NGRAMS"
    proof -
      fix i assume i: "w \<le> i \<and> i < w'"
      show "subwords_idx_len c' i \<le> MAX_NGRAMS"
      proof (cases "i = w")
        case True
        then have "subwords_idx_len c' i = subwords_idx_len c2 w" using ih by simp
        then show ?thesis using le by simp
      next
        case False
        then have "w + 1 \<le> i \<and> i < w'" using i by simp
        then show ?thesis using ih by blast
      qed
    qed
    have low: "\<And>i. i < w \<Longrightarrow> word_indices c' i = word_indices c i \<and> sent_adresses c' i = sent_adresses c i \<and>
        subwords_idx_len c' i = subwords_idx_len c i \<and> subwords_idx c' i = subwords_idx c i"
    proof -
      fix i assume i: "i < w"
      then have "i < w + 1" by simp
      then have "word_indices c' i = word_indices c2 i \<and> sent_adresses c' i = sent_adresses c2 i \<and>
        subwords_idx_len c' i = subwords_idx_len c2 i \<and> subwords_idx c' i = subwords_idx c2 i"
        using ih by blast
      then show "word_indices c' i = word_indices c i \<and> sent_adresses c' i = sent_adresses c i \<and>
        subwords_idx_len c' i = subwords_idx_len c i \<and> subwords_idx c' i = subwords_idx c i"
        using lo[OF i] by simp
    qed
    have "w \<le> w'" using ih by simp
    moreover have "sentence_boundary c' = sentence_boundary c \<and> size_c c' = size_c c \<and>
      word_vectors c' = word_vectors c \<and> word_weights c' = word_weights c \<and>
      sentence_vectors c' = sentence_vectors c \<and> mem c' = mem c \<and>
      ngram_vectors c' = ngram_vectors c \<and> min_n c' = min_n c \<and> max_n c' = max_n c \<and>
      bucket c' = bucket c \<and> oov_weight c' = oov_weight c"
      using ih fr by simp
    ultimately show ?thesis using len low by simp
  qed
qed

lemma ft_sentences_invariant:
  "populate_ft_sentences cnb fhb vocab batch (c, s, w) = (c', s', w') \<Longrightarrow>
   w < MAX_WORDS \<Longrightarrow> sentence_boundary c s = w \<Longrightarrow>
   s \<le> s' \<and> w \<le> w' \<and> w' \<le> MAX_WORDS \<and> sentence_boundary c' s' = w' \<and>
   (\<forall>j. j \<le> s \<longrightarrow> sentence_boundary c' j = sentence_boundary c j) \<and>
   (\<forall>j. s \<le> j \<and> j < s' \<longrightarrow> sentence_boundary c' j \<le> sentence_boundary c' (j + 1)) \<and>
   (\<forall>j. s \<le> j \<and> j \<le> s' \<longrightarrow> w \<le> sentence_boundary c' j \<and> sentence_boundary c' j \<le> w')"
proof (induction batch arbitrary: c s w)
  case Nil
  then show ?case by (auto simp: le_antisym)
next
  case (Cons ob rest)
  show ?case
  proof (cases "words ob = []")
    case True
    then show ?thesis using Cons by simp
  next
    case ne: False
    obtain c1 w1 where r: "populate_ft_tokens cnb fhb vocab (index ob) (words ob) (c, w) = (c1, w1)"
      by (cases "populate_ft_tokens cnb fhb vocab (index ob) (words ob) (c, w)")
    note f = ft_tokens_frame[OF r]
    have w1: "w1 \<le> MAX_WORDS"
      using ft_tokens_count[OF Cons.prems(2), of cnb fhb vocab "index ob" "words ob" c] r by simp
    let ?c2 = "c1\<lparr>sentence_boundary := (sentence_boundary c1)(s + 1 := w1)\<rparr>"
    show ?thesis
    proof (cases "w1 = MAX_WORDS")
      case True
      then have e: "c' = ?c2 \<and> s' = s + 1 \<and> w' = w1"
        using Cons.prems(1) ne r by (auto simp: Let_def)
      have b0: "sentence_boundary c' s = w" using e f Cons.prems(3) by simp
      have b1: "sentence_boundary c' (s + 1) = w1" using e by simp
      have mono: "\<And>j. s \<le> j \<and> j < s' \<Longrightarrow> sentence_boundary c' j \<le> sentence_boundary c' (j + 1)"
      proof -
        fix j assume "s \<le> j \<and> j < s'"
        then have "j = s" using e by simp
        then show "sentence_boundary c' j \<le> sentence_boundary c' (j + 1)" using b0 b1 f by simp
      qed
      have rng: "\<And>j. s \<le> j \<and> j \<le> s' \<Longrightarrow> w \<le> sentence_boundary c' j \<and> sentence_boundary c' j \<le> w'"
      proof -
        fix j assume "s \<le> j \<and> j \<le> s'"
        then have "j = s \<or> j = s + 1" using e by auto
        then show "w \<le> sentence_boundary c' j \<and> sentence_boundary c' j \<le> w'"
          using b0 b1 f e by auto
      qed
      have keep: "\<And>j. j \<le> s \<Longrightarrow> sentence_boundary c' j = sentence_boundary c j"
        using e f by simp
      show ?thesis using e f w1 b1 mono rng keep by simp
    next
      case False
      then have lt: "w1 < MAX_WORDS" using w1 by simp
      have rec: "populate_ft_sentences cnb fhb vocab rest (?c2, s + 1, w1) = (c', s', w')"
        using Cons.prems(1) ne r False by (simp add: Let_def)
      have b: "sentence_boundary ?c2 (s + 1) = w1" by simp
      note ih = Cons.IH[OF rec lt b]
      have keep: "\<And>j. j \<le> s \<Longrightarrow> sentence_boundary c' j = sentence_boundary c j"
        using ih f by simp
      have s1: "sentence_boundary c' (s + 1) = w1" using ih by simp
      have s0: "sentence_boundary c' s = w" using keep[of s] Cons.prems(3) by simp
      have mono: "\<And>j. s \<le> j \<Longrightarrow> j < s' \<Longrightarrow> sentence_boundary c' j \<le> sentence_boundary c' (j + 1)"
      proof -
        fix j assume j: "s \<le> j" "j < s'"
        show "sentence_boundary c' j \<le> sentence_boundary c' (j + 1)"
        proof (cases "j = s")
          case True
          then show ?thesis using s0 s1 f by simp
        next
          case False
          then have "s + 1 \<le> j" using j by simp
          then show ?thesis using ih j by blast
        qed
      qed
      have rng: "\<And>j. s \<le> j \<Longrightarrow> j \<le> s' \<Longrightarrow> w \<le> sentence_boundary c' j \<and> sentence_boundary c' j \<le> w'"
      proof -
        fix j assume j: "s \<le> j" "j \<le> s'"
        show "w \<le> sentence_boundary c' j \<and> sentence_boundary c' j \<le> w'"
        proof (cases "j = s")
          case True
          then show ?thesis using s0 ih f by simp
        next
          case False
          then have "s + 1 \<le> j" using j by simp
          then have "w1 \<le> sentence_boundary c' j \<and> sentence_boundary c' j \<le> w'" using ih j by blast
          then show ?thesis using f by simp
        qed
      qed
      show ?thesis using ih f keep mono rng by auto
    qed
  qed
qed

lemma ft_sentences_len:
  "populate_ft_sentences cnb fhb vocab batch (c, s, w) = (c', s', w') \<Longrightarrow> w < MAX_WORDS \<Longrightarrow>
   w \<le> w' \<and>
   (\<forall>i. i < w \<longrightarrow> subwords_idx_len c' i = subwords_idx_len c i) \<and>
   (\<forall>i. w \<le> i \<and> i < w' \<longrightarrow> subwords_idx_len c' i \<le> MAX_NGRAMS)"
proof (induction batch arbitrary: c s w)
  case Nil
  then show ?case by simp
next
  case (Cons ob rest)
  show ?case
  proof (cases "words ob = []")
    case True
    then show ?thesis using Cons by simp
  next
    case ne: False
    obtain c1 w1 where r: "populate_ft_tokens cnb fhb vocab (index ob) (words ob) (c, w) = (c1, w1)"
      by (cases "populate_ft_tokens cnb fhb vocab (index ob) (words ob) (c, w)")
    note f = ft_tokens_frame[OF r]
    have w1: "w1 \<le> MAX_WORDS"
      using ft_tokens_count[OF Cons.prems(2), of cnb fhb vocab "index ob" "words ob" c] r by simp
    let ?c2 = "c1\<lparr>sentence_boundary := (sentence_boundary c1)(s + 1 := w1)\<rparr>"
    show ?thesis
    proof (cases "w1 = MAX_WORDS")
      case True
      then have e: "c' = ?c2 \<and> s' = s + 1 \<and> w' = w1"
        using Cons.prems(1) ne r by (auto simp: Let_def)
      then show ?thesis using f by simp
    next
      case False
      then have lt: "w1 < MAX_WORDS" using w1 by simp
      have rec: "populate_ft_sentences cnb fhb vocab rest (?c2, s + 1, w1) = (c', s', w')"
        using Cons.prems(1) ne r False by (simp add: Let_def)
      note ih = Cons.IH[OF rec lt]
      have low: "\<And>i. i < w \<Longrightarrow> subwords_idx_len c' i = subwords_idx_len c i"
      proof -
        fix i assume i: "i < w"
        then have "i < w1" using f by simp
        then have "subwords_idx_len c' i = subwords_idx_len ?c2 i" using ih by blast
        then show "subwords_idx_len c' i = subwords_idx_len c i" using f i by simp
      qed
      have len: "\<And>i. w \<le> i \<and> i < w' \<Longrightarrow> subwords_idx_len c' i \<le> MAX_NGRAMS"
      proof -
        fix i assume i: "w \<le> i \<and> i < w'"
        show "subwords_idx_len c' i \<le> MAX_NGRAMS"
        proof (cases "i < w1")
          case True
          then have "subwords_idx_len c' i = subwords_idx_len ?c2 i" using ih by blast
          then show ?thesis using f i True by simp
        next
          case False
          then have "w1 \<le> i \<and> i < w'" using i by simp
          then show ?thesis using ih by blast
        qed
      qed
      have "w \<le> w'" using ih f by simp
      then show ?thesis using low len by simp
    qed
  qed
qed

lemma populate_base_cat_sat:
  "sentence_boundary (fst (populate_base_s2v_config cat_sat_config cat_sat_vocab [cat_sat_sentence])) 0 = 0 \<and>
   sentence_boundary (fst (populate_base_s2v_config cat_sat_config cat_sat_vocab [cat_sat_sentence])) 1 = 2 \<and>
   snd (populate_base_s2v_config cat_sat_config cat_sat_vocab [cat_sat_sentence]) = (1, 2)"
  by (simp add: populate_base_s2v_config_def cat_sat_sentence_def cat_sat_vocab_def MAX_WORDS_def Let_def)

lemma populate_ft_cat_sat:
  "snd (populate_ft_s2v_config no_ngrams zero_hash cat_sat_ft_config cat_sat_vocab [cat_sat_sentence]) = (1, 2)"
  by (simp add: populate_ft_s2v_config_def cat_sat_sentence_def MAX_WORDS_def Let_def)

lemma upt_2: "[0..<2] = [0, 1]" "[0..<1] = [0]" "[1..<3] = [1, 2]" "[0..<Suc 0] = [0]"
  by (simp_all add: upt_rec)

lemma two_oov_hashes:
  "ngram_hashes letters letter_hash c ''ab'' = [1 mod bucket c, 2 mod bucket c]"
  "ngram_hashes letters letter_hash c ''cd'' = [3 mod bucket c, 4 mod bucket c]"
  by (simp_all add: ngram_hashes_def letters_def letter_hash_def)

lemma two_oov_populate:
  "populate_ft_s2v_config letters letter_hash two_oov_config Map.empty [two_oov_sentence] =
     (two_oov_config\<lparr>sent_adresses := (\<lambda>i. 0), word_indices := (\<lambda>i. 0),
        subwords_idx_len := (\<lambda>i. if i = 0 \<or> i = 1 then 2 else 0),
        subwords_idx := (\<lambda>i. if i = 0 then 1 else if i = 1 then 3 else if i = 2 then 4 else 0),
        sentence_boundary := (\<lambda>i. if i = 1 then 2 else 0)\<rparr>, 1, 2)"
  by (simp add: populate_ft_s2v_config_def two_oov_sentence_def populate_ft_token_def two_oov_hashes
      Let_def MAX_WORDS_def MAX_NGRAMS_def two_oov_config_def fun_eq_iff)

lemma two_oov_first_token:
  "fst (ft_word_step (fst (populate_ft_s2v_config letters letter_hash two_oov_config Map.empty [two_oov_sentence]))
         0 (\<lambda>k. 0, \<lambda>k. 0, 0, 0)) 0 = 3 \<and>
   fst (ft_word_step (fst (populate_ft_s2v_config letters letter_hash two_oov_config Map.empty [two_oov_sentence]))
         0 (\<lambda>k. 0, \<lambda>k. 0, 0, 0)) 1 = 0"
  unfolding two_oov_populate
  by (simp add: ft_word_step_def ft_ngram_step_def saxpy_def two_oov_config_def upt_2 Let_def)

lemma two_oov_result:
  "sentence_vectors (fst (train_average_cy_ft letters letter_hash two_oov_config Map.empty [two_oov_sentence])) 0 = 5 / 2 \<and>
   sentence_vectors (fst (train_average_cy_ft letters letter_hash two_oov_config Map.empty [two_oov_sentence])) 1 = 1"
  unfolding train_average_cy_ft_def two_oov_populate
  by (simp add: compute_ft_sentence_averages_def
      ft_sentence_step_def ft_word_step_def ft_ngram_step_def saxpy_def sscal_def memset_zero_def
      two_oov_config_def upt_2 Let_def)

section \<open>An unknown token without n-grams\<close>





section \<open>The scratch buffer of the subword engine\<close>

lemma scratch_zero_memset: "scratch_zero c (memset_zero m (size_c c))"
  by (simp add: scratch_zero_def memset_zero_def)

lemma ft_word_step_scratch:
  "scratch_zero c m \<Longrightarrow> scratch_zero c (fst (snd (ft_word_step c i (sv, m, l, r))))"
  by (simp add: ft_word_step_def Let_def scratch_zero_memset)

lemma ft_words_scratch:
  "scratch_zero c (fst (snd st)) \<Longrightarrow> scratch_zero c (fst (snd (fold (ft_word_step c) is st)))"
proof (induction "is" arbitrary: st)
  case Nil
  then show ?case by simp
next
  case (Cons i "is")
  obtain sv m l r where st: "st = (sv, m, l, r)" by (cases st) auto
  have "scratch_zero c (fst (snd (ft_word_step c i st)))"
    using Cons.prems ft_word_step_scratch[of c m i sv l r] by (simp add: st)
  then show ?case using Cons.IH by simp
qed

lemma ft_sentence_step_scratch:
  "scratch_zero c (fst (snd st)) \<Longrightarrow> scratch_zero c (fst (snd (ft_sentence_step c n st)))"
proof -
  assume a: "scratch_zero c (fst (snd st))"
  obtain sv m r where st: "st = (sv, m, r)" by (cases st) auto
  let ?f = "fold (ft_word_step c) [sentence_boundary c n..<sentence_boundary c (n + 1)] (sv, m, 0, r)"
  have "scratch_zero c (fst (snd ?f))" using a ft_words_scratch[of c "(sv, m, 0, r)"] by (simp add: st)
  then show ?thesis
    by (auto simp: ft_sentence_step_def st Let_def split: prod.splits)
qed

lemma ft_sentences_scratch:
  "scratch_zero c (fst (snd st)) \<Longrightarrow> scratch_zero c (fst (snd (fold (ft_sentence_step c) ns st)))"
proof (induction ns arbitrary: st)
  case Nil
  then show ?case by simp
next
  case (Cons n ns)
  have "scratch_zero c (fst (snd (ft_sentence_step c n st)))"
    using Cons.prems by (rule ft_sentence_step_scratch)
  then show ?case using Cons.IH by simp
qed

section \<open>Where the plain populator puts a sentence\<close>

lemma base_tokens_rows:
  "populate_base_tokens vocab idx ts (c, w) = (c', w') \<Longrightarrow>
   \<forall>i. w \<le> i \<and> i < w' \<longrightarrow> sent_adresses c' i = idx"
proof (induction ts arbitrary: c w)
  case Nil
  then show ?case by simp
next
  case (Cons t ts)
  show ?case
  proof (cases "vocab t")
    case None
    then show ?thesis using Cons by simp
  next
    case (Some v)
    let ?c2 = "c\<lparr>word_indices := (word_indices c)(w := v), sent_adresses := (sent_adresses c)(w := idx)\<rparr>"
    show ?thesis
    proof (cases "w + 1 = MAX_WORDS")
      case True
      then have e: "c' = ?c2 \<and> w' = w + 1" using Some Cons.prems by (auto simp: Let_def)
      show ?thesis
      proof (intro allI impI)
        fix i assume "w \<le> i \<and> i < w'"
        then have "i = w" using e by simp
        then show "sent_adresses c' i = idx" using e by simp
      qed
    next
      case False
      have rec: "populate_base_tokens vocab idx ts (?c2, w + 1) = (c', w')"
        using Cons.prems Some False by (simp add: Let_def)
      note ih = Cons.IH[OF rec]
      note f = base_tokens_frame[OF rec]
      show ?thesis
      proof (intro allI impI)
        fix i assume i: "w \<le> i \<and> i < w'"
        show "sent_adresses c' i = idx"
        proof (cases "i = w")
          case True
          then have "sent_adresses c' i = sent_adresses ?c2 w" using f by simp
          then show ?thesis by simp
        next
          case False
          then have "w + 1 \<le> i \<and> i < w'" using i by simp
          then show ?thesis using ih by blast
        qed
      qed
    qed
  qed
qed

lemma base_tokens_content:
  "populate_base_tokens vocab idx ts (c, w) = (c', w') \<Longrightarrow>
   \<forall>i. i < w' - w \<longrightarrow> word_indices c' (w + i) = the (vocab (in_vocab vocab ts ! i))"
proof (induction ts arbitrary: c w)
  case Nil
  then show ?case by simp
next
  case (Cons t ts)
  show ?case
  proof (cases "vocab t")
    case None
    then show ?thesis using Cons by simp
  next
    case (Some v)
    let ?c2 = "c\<lparr>word_indices := (word_indices c)(w := v), sent_adresses := (sent_adresses c)(w := idx)\<rparr>"
    show ?thesis
    proof (cases "w + 1 = MAX_WORDS")
      case True
      then have e: "c' = ?c2 \<and> w' = w + 1" using Some Cons.prems by (auto simp: Let_def)
      show ?thesis
      proof (intro allI impI)
        fix i assume "i < w' - w"
        then have "i = 0" using e by simp
        then show "word_indices c' (w + i) = the (vocab (in_vocab vocab (t # ts) ! i))"
          using e Some by simp
      qed
    next
      case False
      have rec: "populate_base_tokens vocab idx ts (?c2, w + 1) = (c', w')"
        using Cons.prems Some False by (simp add: Let_def)
      note ih = Cons.IH[OF rec]
      note f = base_tokens_frame[OF rec]
      show ?thesis
      proof (intro allI impI)
        fix i assume i: "i < w' - w"
        show "word_indices c' (w + i) = the (vocab (in_vocab vocab (t # ts) ! i))"
        proof (cases i)
          case 0
          then have "word_indices c' (w + i) = word_indices ?c2 w" using f by simp
          then show ?thesis using Some 0 by simp
        next
          case (Suc i')
          then have "i' < w' - (w + 1)" using i by simp
          then have "word_indices c' (w + 1 + i') = the (vocab (in_vocab vocab ts ! i'))"
            using ih by blast
          then show ?thesis using Some Suc by simp
        qed
      qed
    qed
  qed
qed

lemma base_sentences_frame:
  "populate_base_sentences vocab batch (c, s, w) = (c', s', w') \<Longrightarrow>
   size_c c' = size_c c \<and> word_vectors c' = word_vectors c \<and> word_weights c' = word_weights c \<and>
   sentence_vectors c' = sentence_vectors c \<and> w \<le> w' \<and>
   (\<forall>i. i < w \<longrightarrow> word_indices c' i = word_indices c i \<and> sent_adresses c' i = sent_adresses c i)"
proof (induction batch arbitrary: c s w)
  case Nil
  then show ?case by simp
next
  case (Cons ob rest)
  show ?case
  proof (cases "words ob = []")
    case True
    then show ?thesis using Cons by simp
  next
    case ne: False
    obtain c1 w1 where r: "populate_base_tokens vocab (index ob) (words ob) (c, w) = (c1, w1)"
      by (cases "populate_base_tokens vocab (index ob) (words ob) (c, w)")
    note f = base_tokens_frame[OF r]
    let ?c2 = "c1\<lparr>sentence_boundary := (sentence_boundary c1)(s + 1 := w1)\<rparr>"
    show ?thesis
    proof (cases "w1 = MAX_WORDS")
      case True
      then have e: "c' = ?c2 \<and> s' = s + 1 \<and> w' = w1"
        using Cons.prems(1) ne r by (auto simp: Let_def)
      then show ?thesis using f by simp
    next
      case False
      have rec: "populate_base_sentences vocab rest (?c2, s + 1, w1) = (c', s', w')"
        using Cons.prems(1) ne r False by (simp add: Let_def)
      note ih = Cons.IH[OF rec]
      have low: "\<And>i. i < w \<Longrightarrow> word_indices c' i = word_indices c i \<and> sent_adresses c' i = sent_adresses c i"
      proof -
        fix i assume i: "i < w"
        then have "i < w1" using f by simp
        then have "word_indices c' i = word_indices ?c2 i \<and> sent_adresses c' i = sent_adresses ?c2 i"
          using ih by blast
        then show "word_indices c' i = word_indices c i \<and> sent_adresses c' i = sent_adresses c i"
          using f i by simp
      qed
      have "size_c c' = size_c c \<and> word_vectors c' = word_vectors c \<and> word_weights c' = word_weights c \<and>
        sentence_vectors c' = sentence_vectors c \<and> w \<le> w'"
        using ih f by simp
      then show ?thesis using low by simp
    qed
  qed
qed

lemma base_sentences_rows:
  "populate_base_sentences vocab batch (c, s, w) = (c', s', w') \<Longrightarrow>
   \<forall>i. w \<le> i \<and> i < w' \<longrightarrow>
     (\<exists>ob\<in>set batch. in_vocab vocab (words ob) \<noteq> [] \<and> sent_adresses c' i = index ob)"
proof (induction batch arbitrary: c s w)
  case Nil
  then show ?case by simp
next
  case (Cons ob rest)
  show ?case
  proof (cases "words ob = []")
    case True
    then show ?thesis using Cons by simp
  next
    case ne: False
    obtain c1 w1 where r: "populate_base_tokens vocab (index ob) (words ob) (c, w) = (c1, w1)"
      by (cases "populate_base_tokens vocab (index ob) (words ob) (c, w)")
    note f = base_tokens_frame[OF r]
    note rows = base_tokens_rows[OF r]
    have grow: "w < w1 \<Longrightarrow> in_vocab vocab (words ob) \<noteq> []"
      using base_tokens_all_oov[of vocab "words ob" "index ob" c w] r by auto
    let ?c2 = "c1\<lparr>sentence_boundary := (sentence_boundary c1)(s + 1 := w1)\<rparr>"
    show ?thesis
    proof (cases "w1 = MAX_WORDS")
      case True
      then have e: "c' = ?c2 \<and> s' = s + 1 \<and> w' = w1"
        using Cons.prems(1) ne r by (auto simp: Let_def)
      show ?thesis
      proof (intro allI impI)
        fix i assume i: "w \<le> i \<and> i < w'"
        then have "sent_adresses c' i = index ob" using rows e by simp
        moreover have "in_vocab vocab (words ob) \<noteq> []" using grow i e by simp
        ultimately show "\<exists>ob\<in>set (ob # rest). in_vocab vocab (words ob) \<noteq> [] \<and> sent_adresses c' i = index ob"
          by auto
      qed
    next
      case False
      have rec: "populate_base_sentences vocab rest (?c2, s + 1, w1) = (c', s', w')"
        using Cons.prems(1) ne r False by (simp add: Let_def)
      note ih = Cons.IH[OF rec]
      note g = base_sentences_frame[OF rec]
      show ?thesis
      proof (intro allI impI)
        fix i assume i: "w \<le> i \<and> i < w'"
        show "\<exists>ob\<in>set (ob # rest). in_vocab vocab (words ob) \<noteq> [] \<and> sent_adresses c' i = index ob"
        proof (cases "i < w1")
          case True
          then have "sent_adresses c' i = sent_adresses ?c2 i" using g by blast
          then have "sent_adresses c' i = index ob" using rows i True by simp
          moreover have "in_vocab vocab (words ob) \<noteq> []" using grow i True by simp
          ultimately show ?thesis by auto
        next
          case False
          then have "w1 \<le> i \<and> i < w'" using i by simp
          then have "\<exists>ob\<in>set rest. in_vocab vocab (words ob) \<noteq> [] \<and> sent_adresses c' i = index ob"
            using ih by blast
          then show ?thesis by auto
        qed
      qed
    qed
  qed
qed

section \<open>Rows of the output matrix under the primitives\<close>

lemma row_disjoint:
  fixes r r' k n :: nat
  assumes "r \<noteq> r'" and "k < n"
  shows "\<not> (r' * n \<le> r * n + k \<and> r * n + k < r' * n + n)"
proof (cases "r < r'")
  case True
  then have "Suc r * n \<le> r' * n" by (intro mult_le_mono1) simp
  then have "r * n + k < r' * n" using assms(2) by simp
  then show ?thesis by simp
next
  case False
  then have "r' < r" using assms(1) by simp
  then have "Suc r' * n \<le> r * n" by (intro mult_le_mono1) simp
  then have "r' * n + n \<le> r * n + k" by simp
  then show ?thesis by simp
qed

lemma saxpy_other_row:
  assumes "r \<noteq> r'" and "k < n"
  shows "saxpy n a x xo y (r' * n) (r * n + k) = y (r * n + k)"
proof -
  have "(r' * n \<le> r * n + k \<and> r * n + k < r' * n + n) = False"
    using row_disjoint[OF assms] by blast
  then show ?thesis unfolding saxpy_def by (simp only: if_False)
qed

lemma sscal_other_row:
  assumes "r \<noteq> r'" and "k < n"
  shows "sscal n a x (r' * n) (r * n + k) = x (r * n + k)"
proof -
  have "(r' * n \<le> r * n + k \<and> r * n + k < r' * n + n) = False"
    using row_disjoint[OF assms] by blast
  then show ?thesis unfolding sscal_def by (simp only: if_False)
qed

section \<open>The plain engine, row by row\<close>

lemma base_word_step_other:
  "sent_adresses c i \<noteq> r \<Longrightarrow> k < size_c c \<Longrightarrow>
   fst (base_word_step c i st) (r * size_c c + k) = fst st (r * size_c c + k)"
  by (cases st) (simp add: base_word_step_def Let_def saxpy_other_row)

lemma base_word_step_locals:
  "fst (snd (base_word_step c i st)) = fst (snd st) + 1 \<and>
   snd (snd (base_word_step c i st)) = sent_adresses c i * size_c c"
  by (cases st) (simp add: base_word_step_def Let_def)

lemma base_words_other:
  "\<forall>i\<in>set is. sent_adresses c i \<noteq> r \<Longrightarrow> k < size_c c \<Longrightarrow>
   fst (fold (base_word_step c) is st) (r * size_c c + k) = fst st (r * size_c c + k)"
  by (induction "is" arbitrary: st) (simp_all add: base_word_step_other)

lemma base_words_len:
  "fst (snd (fold (base_word_step c) is st)) = fst (snd st) + real (length is)"
  by (induction "is" arbitrary: st) (simp_all add: base_word_step_locals)

lemma base_words_row:
  "is \<noteq> [] \<Longrightarrow> snd (snd (fold (base_word_step c) is st)) = sent_adresses c (last is) * size_c c"
proof (induction "is" arbitrary: st)
  case Nil
  then show ?case by simp
next
  case (Cons i "is")
  then show ?case by (cases "is = []") (simp_all add: base_word_step_locals)
qed

lemma base_sentence_other:
  assumes "\<forall>i. sentence_boundary c n \<le> i \<and> i < sentence_boundary c (n + 1) \<longrightarrow> sent_adresses c i \<noteq> r"
    and "k < size_c c"
  shows "fst (base_sentence_step c n st) (r * size_c c + k) = fst st (r * size_c c + k)"
proof -
  obtain sv row where st: "st = (sv, row)" by (cases st)
  let ?is = "[sentence_boundary c n..<sentence_boundary c (n + 1)]"
  let ?f = "fold (base_word_step c) ?is (sv, 0, row)"
  have oth: "\<forall>i\<in>set ?is. sent_adresses c i \<noteq> r" using assms(1) by simp
  have a: "fst ?f (r * size_c c + k) = sv (r * size_c c + k)"
    using base_words_other[OF oth assms(2), of "(sv, 0, row)"] by simp
  obtain sv1 l1 r1 where f: "?f = (sv1, l1, r1)" by (cases ?f)
  have len: "l1 = real (length ?is)"
    using base_words_len[of c ?is "(sv, 0, row)"] f by simp
  show ?thesis
  proof (cases "l1 > 0")
    case False
    then have "fst (base_sentence_step c n st) = sv1"
      using f by (simp add: base_sentence_step_def st Let_def)
    then show ?thesis using a f by (simp add: st)
  next
    case True
    then have ne: "?is \<noteq> []" using len by auto
    then have "last ?is \<in> set ?is" by (rule last_in_set)
    then have lr: "r \<noteq> sent_adresses c (last ?is)" using oth by blast
    have row: "r1 = sent_adresses c (last ?is) * size_c c"
      using base_words_row[OF ne, of c "(sv, 0, row)"] f by simp
    have "fst (base_sentence_step c n st) = sscal (size_c c) (1 / l1) sv1 r1"
      using True f by (simp add: base_sentence_step_def st Let_def)
    then have "fst (base_sentence_step c n st) (r * size_c c + k) = sv1 (r * size_c c + k)"
      unfolding row using sscal_other_row[OF lr assms(2)] by simp
    then show ?thesis using a f by (simp add: st)
  qed
qed

lemma base_sentences_other:
  assumes "\<forall>n\<in>set ns. \<forall>i. sentence_boundary c n \<le> i \<and> i < sentence_boundary c (n + 1) \<longrightarrow>
             sent_adresses c i \<noteq> r"
    and "k < size_c c"
  shows "fst (fold (base_sentence_step c) ns st) (r * size_c c + k) = fst st (r * size_c c + k)"
  using assms(1)
proof (induction ns arbitrary: st)
  case Nil
  then show ?case by simp
next
  case (Cons n ns)
  have "fst (base_sentence_step c n st) (r * size_c c + k) = fst st (r * size_c c + k)"
    using Cons.prems assms(2) by (intro base_sentence_other) simp_all
  then show ?case using Cons by simp
qed

lemma base_populated_ranges:
  assumes "populate_base_s2v_config c vocab batch = (c', s', w')"
    and "n < s'" and "sentence_boundary c' n \<le> i \<and> i < sentence_boundary c' (n + 1)"
  shows "\<exists>ob\<in>set batch. in_vocab vocab (words ob) \<noteq> [] \<and> sent_adresses c' i = index ob"
proof -
  let ?c0 = "c\<lparr>sentence_boundary := (sentence_boundary c)(0 := 0)\<rparr>"
  have p: "populate_base_sentences vocab batch (?c0, 0, 0) = (c', s', w')"
    using assms(1) by (simp add: populate_base_s2v_config_def)
  have lt: "(0::nat) < MAX_WORDS" by (simp add: MAX_WORDS_def)
  have "0 \<le> n + 1 \<and> n + 1 \<le> s'" using assms(2) by simp
  then have "sentence_boundary c' (n + 1) \<le> w'"
    using base_sentences_invariant[OF p lt] by simp
  then have "0 \<le> i \<and> i < w'" using assms(3) by simp
  then show ?thesis using base_sentences_rows[OF p] by blast
qed

lemma base_untouched_row:
  assumes "\<forall>ob\<in>set batch. index ob = r \<longrightarrow> in_vocab vocab (words ob) = []" and "k < size_c c"
  shows "sentence_vectors (fst (train_average_cy_base c vocab batch)) (r * size_c c + k) =
    sentence_vectors c (r * size_c c + k)"
proof -
  obtain c' s' w' where p: "populate_base_s2v_config c vocab batch = (c', s', w')"
    by (cases "populate_base_s2v_config c vocab batch")
  let ?c0 = "c\<lparr>sentence_boundary := (sentence_boundary c)(0 := 0)\<rparr>"
  have p0: "populate_base_sentences vocab batch (?c0, 0, 0) = (c', s', w')"
    using p by (simp add: populate_base_s2v_config_def)
  have fr: "size_c c' = size_c c \<and> sentence_vectors c' = sentence_vectors c"
    using base_sentences_frame[OF p0] by simp
  have oth: "\<forall>n\<in>set [0..<s']. \<forall>i. sentence_boundary c' n \<le> i \<and> i < sentence_boundary c' (n + 1) \<longrightarrow>
      sent_adresses c' i \<noteq> r"
  proof (intro ballI allI impI)
    fix n i assume n: "n \<in> set [0..<s']"
      and i: "sentence_boundary c' n \<le> i \<and> i < sentence_boundary c' (n + 1)"
    from n have "n < s'" by simp
    from base_populated_ranges[OF p this i] obtain ob where
      ob: "ob \<in> set batch" "in_vocab vocab (words ob) \<noteq> []" "sent_adresses c' i = index ob"
      by blast
    then show "sent_adresses c' i \<noteq> r" using assms(1) by auto
  qed
  have k: "k < size_c c'" using assms(2) fr by simp
  have "fst (fold (base_sentence_step c') [0..<s'] (sentence_vectors c', 0)) (r * size_c c' + k) =
      sentence_vectors c' (r * size_c c' + k)"
    using base_sentences_other[OF oth k, of "(sentence_vectors c', 0)"] by simp
  then show ?thesis
    using fr by (simp add: train_average_cy_base_def p compute_base_sentence_averages_def)
qed

section \<open>Where the subword populator puts a sentence\<close>

lemma ft_token_row:
  "sent_adresses (populate_ft_token cnb fhb vocab idx t c w) w = idx"
  by (cases "vocab t") (simp_all add: populate_ft_token_def Let_def)

lemma ft_tokens_rows:
  "populate_ft_tokens cnb fhb vocab idx ts (c, w) = (c', w') \<Longrightarrow>
   \<forall>i. w \<le> i \<and> i < w' \<longrightarrow> sent_adresses c' i = idx"
proof (induction ts arbitrary: c w)
  case Nil
  then show ?case by simp
next
  case (Cons t ts)
  define c2 where "c2 = populate_ft_token cnb fhb vocab idx t c w"
  have row: "sent_adresses c2 w = idx" unfolding c2_def by (rule ft_token_row)
  show ?case
  proof (cases "w + 1 = MAX_WORDS")
    case True
    then have e: "c' = c2 \<and> w' = w + 1" using Cons.prems by (auto simp: Let_def c2_def)
    show ?thesis
    proof (intro allI impI)
      fix i assume "w \<le> i \<and> i < w'"
      then have "i = w" using e by simp
      then show "sent_adresses c' i = idx" using e row by simp
    qed
  next
    case False
    have rec: "populate_ft_tokens cnb fhb vocab idx ts (c2, w + 1) = (c', w')"
      using Cons.prems False by (simp add: Let_def c2_def)
    note ih = Cons.IH[OF rec]
    note f = ft_tokens_frame[OF rec]
    show ?thesis
    proof (intro allI impI)
      fix i assume i: "w \<le> i \<and> i < w'"
      show "sent_adresses c' i = idx"
      proof (cases "i = w")
        case True
        then have "sent_adresses c' i = sent_adresses c2 w" using f by simp
        then show ?thesis using row by simp
      next
        case False
        then have "w + 1 \<le> i \<and> i < w'" using i by simp
        then show ?thesis using ih by blast
      qed
    qed
  qed
qed

lemma ft_sentences_frame:
  "populate_ft_sentences cnb fhb vocab batch (c, s, w) = (c', s', w') \<Longrightarrow>
   size_c c' = size_c c \<and> word_vectors c' = word_vectors c \<and> word_weights c' = word_weights c \<and>
   sentence_vectors c' = sentence_vectors c \<and> mem c' = mem c \<and> ngram_vectors c' = ngram_vectors c \<and>
   w \<le> w' \<and>
   (\<forall>i. i < w \<longrightarrow> word_indices c' i = word_indices c i \<and> sent_adresses c' i = sent_adresses c i)"
proof (induction batch arbitrary: c s w)
  case Nil
  then show ?case by simp
next
  case (Cons ob rest)
  show ?case
  proof (cases "words ob = []")
    case True
    then show ?thesis using Cons by simp
  next
    case ne: False
    obtain c1 w1 where r: "populate_ft_tokens cnb fhb vocab (index ob) (words ob) (c, w) = (c1, w1)"
      by (cases "populate_ft_tokens cnb fhb vocab (index ob) (words ob) (c, w)")
    note f = ft_tokens_frame[OF r]
    let ?c2 = "c1\<lparr>sentence_boundary := (sentence_boundary c1)(s + 1 := w1)\<rparr>"
    show ?thesis
    proof (cases "w1 = MAX_WORDS")
      case True
      then have e: "c' = ?c2 \<and> s' = s + 1 \<and> w' = w1"
        using Cons.prems(1) ne r by (auto simp: Let_def)
      then show ?thesis using f by simp
    next
      case False
      have rec: "populate_ft_sentences cnb fhb vocab rest (?c2, s + 1, w1) = (c', s', w')"
        using Cons.prems(1) ne r False by (simp add: Let_def)
      note ih = Cons.IH[OF rec]
      have low: "\<And>i. i < w \<Longrightarrow> word_indices c' i = word_indices c i \<and> sent_adresses c' i = sent_adresses c i"
      proof -
        fix i assume i: "i < w"
        then have "i < w1" using f by simp
        then have "word_indices c' i = word_indices ?c2 i \<and> sent_adresses c' i = sent_adresses ?c2 i"
          using ih by blast
        then show "word_indices c' i = word_indices c i \<and> sent_adresses c' i = sent_adresses c i"
          using f i by simp
      qed
      have "size_c c' = size_c c \<and> word_vectors c' = word_vectors c \<and> word_weights c' = word_weights c \<and>
        sentence_vectors c' = sentence_vectors c \<and> mem c' = mem c \<and> ngram_vectors c' = ngram_vectors c \<and>
        w \<le> w'"
        using ih f by simp
      then show ?thesis using low by simp
    qed
  qed
qed

lemma ft_sentences_rows:
  "populate_ft_sentences cnb fhb vocab batch (c, s, w) = (c', s', w') \<Longrightarrow>
   \<forall>i. w \<le> i \<and> i < w' \<longrightarrow> (\<exists>ob\<in>set batch. words ob \<noteq> [] \<and> sent_adresses c' i = index ob)"
proof (induction batch arbitrary: c s w)
  case Nil
  then show ?case by simp
next
  case (Cons ob rest)
  show ?case
  proof (cases "words ob = []")
    case True
    then show ?thesis using Cons by simp
  next
    case ne: False
    obtain c1 w1 where r: "populate_ft_tokens cnb fhb vocab (index ob) (words ob) (c, w) = (c1, w1)"
      by (cases "populate_ft_tokens cnb fhb vocab (index ob) (words ob) (c, w)")
    note rows = ft_tokens_rows[OF r]
    let ?c2 = "c1\<lparr>sentence_boundary := (sentence_boundary c1)(s + 1 := w1)\<rparr>"
    show ?thesis
    proof (cases "w1 = MAX_WORDS")
      case True
      then have e: "c' = ?c2 \<and> s' = s + 1 \<and> w' = w1"
        using Cons.prems(1) ne r by (auto simp: Let_def)
      show ?thesis
      proof (intro allI impI)
        fix i assume i: "w \<le> i \<and> i < w'"
        then have "sent_adresses c' i = index ob" using rows e by simp
        then show "\<exists>ob\<in>set (ob # rest). words ob \<noteq> [] \<and> sent_adresses c' i = index ob"
          using ne by auto
      qed
    next
      case False
      have rec: "populate_ft_sentences cnb fhb vocab rest (?c2, s + 1, w1) = (c', s', w')"
        using Cons.prems(1) ne r False by (simp add: Let_def)
      note ih = Cons.IH[OF rec]
      note g = ft_sentences_frame[OF rec]
      show ?thesis
      proof (intro allI impI)
        fix i assume i: "w \<le> i \<and> i < w'"
        show "\<exists>ob\<in>set (ob # rest). words ob \<noteq> [] \<and> sent_adresses c' i = index ob"
        proof (cases "i < w1")
          case True
          then have "sent_adresses c' i = sent_adresses ?c2 i" using g by blast
          then have "sent_adresses c' i = index ob" using rows i True by simp
          then show ?thesis using ne by auto
        next
          case False
          then have "w1 \<le> i \<and> i < w'" using i by simp
          then have "\<exists>ob\<in>set rest. words ob \<noteq> [] \<and> sent_adresses c' i = index ob"
            using ih by blast
          then show ?thesis by auto
        qed
      qed
    qed
  qed
qed

section \<open>The subword engine, row by row\<close>

lemma ft_word_step_other:
  "sent_adresses c i \<noteq> r \<Longrightarrow> k < size_c c \<Longrightarrow>
   fst (ft_word_step c i st) (r * size_c c + k) = fst st (r * size_c c + k)"
  by (cases st) (simp add: ft_word_step_def Let_def saxpy_other_row)

lemma ft_word_step_locals:
  "fst (snd (snd (ft_word_step c i st))) = fst (snd (snd st)) + 1 \<and>
   snd (snd (snd (ft_word_step c i st))) = sent_adresses c i * size_c c"
  by (cases st) (simp add: ft_word_step_def Let_def)

lemma ft_words_other:
  "\<forall>i\<in>set is. sent_adresses c i \<noteq> r \<Longrightarrow> k < size_c c \<Longrightarrow>
   fst (fold (ft_word_step c) is st) (r * size_c c + k) = fst st (r * size_c c + k)"
  by (induction "is" arbitrary: st) (simp_all add: ft_word_step_other)

lemma ft_words_len:
  "fst (snd (snd (fold (ft_word_step c) is st))) = fst (snd (snd st)) + real (length is)"
  by (induction "is" arbitrary: st) (simp_all add: ft_word_step_locals)

lemma ft_words_row:
  "is \<noteq> [] \<Longrightarrow> snd (snd (snd (fold (ft_word_step c) is st))) = sent_adresses c (last is) * size_c c"
proof (induction "is" arbitrary: st)
  case Nil
  then show ?case by simp
next
  case (Cons i "is")
  then show ?case by (cases "is = []") (simp_all add: ft_word_step_locals)
qed

lemma ft_sentence_other:
  assumes "\<forall>i. sentence_boundary c n \<le> i \<and> i < sentence_boundary c (n + 1) \<longrightarrow> sent_adresses c i \<noteq> r"
    and "k < size_c c"
  shows "fst (ft_sentence_step c n st) (r * size_c c + k) = fst st (r * size_c c + k)"
proof -
  obtain sv m row where st: "st = (sv, m, row)" by (cases st)
  let ?is = "[sentence_boundary c n..<sentence_boundary c (n + 1)]"
  let ?f = "fold (ft_word_step c) ?is (sv, m, 0, row)"
  have oth: "\<forall>i\<in>set ?is. sent_adresses c i \<noteq> r" using assms(1) by simp
  have a: "fst ?f (r * size_c c + k) = sv (r * size_c c + k)"
    using ft_words_other[OF oth assms(2), of "(sv, m, 0, row)"] by simp
  obtain sv1 m1 l1 r1 where f: "?f = (sv1, m1, l1, r1)" by (cases ?f)
  have len: "l1 = real (length ?is)"
    using ft_words_len[of c ?is "(sv, m, 0, row)"] f by simp
  show ?thesis
  proof (cases "l1 > 0")
    case False
    then have "fst (ft_sentence_step c n st) = sv1"
      using f by (simp add: ft_sentence_step_def st Let_def)
    then show ?thesis using a f by (simp add: st)
  next
    case True
    then have ne: "?is \<noteq> []" using len by auto
    then have "last ?is \<in> set ?is" by (rule last_in_set)
    then have lr: "r \<noteq> sent_adresses c (last ?is)" using oth by blast
    have row: "r1 = sent_adresses c (last ?is) * size_c c"
      using ft_words_row[OF ne, of c "(sv, m, 0, row)"] f by simp
    have "fst (ft_sentence_step c n st) = sscal (size_c c) (1 / l1) sv1 r1"
      using True f by (simp add: ft_sentence_step_def st Let_def)
    then have "fst (ft_sentence_step c n st) (r * size_c c + k) = sv1 (r * size_c c + k)"
      unfolding row using sscal_other_row[OF lr assms(2)] by simp
    then show ?thesis using a f by (simp add: st)
  qed
qed

lemma ft_sentences_other:
  assumes "\<forall>n\<in>set ns. \<forall>i. sentence_boundary c n \<le> i \<and> i < sentence_boundary c (n + 1) \<longrightarrow>
             sent_adresses c i \<noteq> r"
    and "k < size_c c"
  shows "fst (fold (ft_sentence_step c) ns st) (r * size_c c + k) = fst st (r * size_c c + k)"
  using assms(1)
proof (induction ns arbitrary: st)
  case Nil
  then show ?case by simp
next
  case (Cons n ns)
  have "fst (ft_sentence_step c n st) (r * size_c c + k) = fst st (r * size_c c + k)"
    using Cons.prems assms(2) by (intro ft_sentence_other) simp_all
  then show ?case using Cons by simp
qed

lemma compute_ft_sentence_vectors:
  "sentence_vectors (compute_ft_sentence_averages c n) =
     fst (fold (ft_sentence_step c) [0..<n] (sentence_vectors c, memset_zero (mem c) (size_c c), 0))"
  by (cases "fold (ft_sentence_step c) [0..<n] (sentence_vectors c, memset_zero (mem c) (size_c c), 0)")
     (simp add: compute_ft_sentence_averages_def)

lemma ft_populated_ranges:
  assumes "populate_ft_s2v_config cnb fhb c vocab batch = (c', s', w')"
    and "n < s'" and "sentence_boundary c' n \<le> i \<and> i < sentence_boundary c' (n + 1)"
  shows "\<exists>ob\<in>set batch. words ob \<noteq> [] \<and> sent_adresses c' i = index ob"
proof -
  let ?c0 = "c\<lparr>sentence_boundary := (sentence_boundary c)(0 := 0)\<rparr>"
  have p: "populate_ft_sentences cnb fhb vocab batch (?c0, 0, 0) = (c', s', w')"
    using assms(1) by (simp add: populate_ft_s2v_config_def)
  have lt: "(0::nat) < MAX_WORDS" by (simp add: MAX_WORDS_def)
  have "0 \<le> n + 1 \<and> n + 1 \<le> s'" using assms(2) by simp
  then have "sentence_boundary c' (n + 1) \<le> w'"
    using ft_sentences_invariant[OF p lt] by simp
  then have "0 \<le> i \<and> i < w'" using assms(3) by simp
  then show ?thesis using ft_sentences_rows[OF p] by blast
qed

lemma ft_untouched_row:
  assumes "\<forall>ob\<in>set batch. index ob = r \<longrightarrow> words ob = []" and "k < size_c c"
  shows "sentence_vectors (fst (train_average_cy_ft cnb fhb c vocab batch)) (r * size_c c + k) =
    sentence_vectors c (r * size_c c + k)"
proof -
  obtain c' s' w' where p: "populate_ft_s2v_config cnb fhb c vocab batch = (c', s', w')"
    by (cases "populate_ft_s2v_config cnb fhb c vocab batch")
  let ?c0 = "c\<lparr>sentence_boundary := (sentence_boundary c)(0 := 0)\<rparr>"
  have p0: "populate_ft_sentences cnb fhb vocab batch (?c0, 0, 0) = (c', s', w')"
    using p by (simp add: populate_ft_s2v_config_def)
  have fr: "size_c c' = size_c c \<and> sentence_vectors c' = sentence_vectors c"
    using ft_sentences_frame[OF p0] by simp
  have oth: "\<forall>n\<in>set [0..<s']. \<forall>i. sentence_boundary c' n \<le> i \<and> i < sentence_boundary c' (n + 1) \<longrightarrow>
      sent_adresses c' i \<noteq> r"
  proof (intro ballI allI impI)
    fix n i assume n: "n \<in> set [0..<s']"
      and i: "sentence_boundary c' n \<le> i \<and> i < sentence_boundary c' (n + 1)"
    from n have "n < s'" by simp
    from ft_populated_ranges[OF p this i] obtain ob where
      ob: "ob \<in> set batch" "words ob \<noteq> []" "sent_adresses c' i = index ob"
      by blast
    then show "sent_adresses c' i \<noteq> r" using assms(1) by auto
  qed
  have k: "k < size_c c'" using assms(2) fr by simp
  let ?init = "(sentence_vectors c', memset_zero (mem c') (size_c c'), 0::nat)"
  have "fst (fold (ft_sentence_step c') [0..<s'] ?init) (r * size_c c' + k) =
      sentence_vectors c' (r * size_c c' + k)"
    using ft_sentences_other[OF oth k, of ?init] by simp
  then show ?thesis
    using fr by (simp add: train_average_cy_ft_def p compute_ft_sentence_vectors)
qed

section \<open>The slots of one sentence of a batch, plain mode\<close>

lemma base_sentences_append:
  "w < MAX_WORDS \<Longrightarrow>
   populate_base_sentences vocab (xs @ ys) (c, s, w) =
     (if snd (snd (populate_base_sentences vocab xs (c, s, w))) = MAX_WORDS
      then populate_base_sentences vocab xs (c, s, w)
      else populate_base_sentences vocab ys (populate_base_sentences vocab xs (c, s, w)))"
proof (induction xs arbitrary: c s w)
  case Nil
  then show ?case by simp
next
  case (Cons ob rest)
  show ?case
  proof (cases "words ob = []")
    case True
    then show ?thesis using Cons by simp
  next
    case ne: False
    obtain c1 w1 where r: "populate_base_tokens vocab (index ob) (words ob) (c, w) = (c1, w1)"
      by (cases "populate_base_tokens vocab (index ob) (words ob) (c, w)")
    have w1: "w1 \<le> MAX_WORDS"
      using base_tokens_count[OF Cons.prems, of vocab "index ob" "words ob" c] r by simp
    show ?thesis
    proof (cases "w1 = MAX_WORDS")
      case True
      then show ?thesis using ne r by (simp add: Let_def)
    next
      case False
      then have "w1 < MAX_WORDS" using w1 by simp
      from Cons.IH[OF this] show ?thesis using ne r False by (simp add: Let_def)
    qed
  qed
qed

lemma base_sentences_nonempty:
  "populate_base_sentences vocab batch (c, s, w) = (c', s', w') \<Longrightarrow>
   w + base_retained vocab batch < MAX_WORDS \<Longrightarrow> s' = s + nonempty_count batch"
proof (induction batch arbitrary: c s w)
  case Nil
  then show ?case by simp
next
  case (Cons ob rest)
  show ?case
  proof (cases "words ob = []")
    case True
    then show ?thesis using Cons by simp
  next
    case ne: False
    obtain c1 w1 where r: "populate_base_tokens vocab (index ob) (words ob) (c, w) = (c1, w1)"
      by (cases "populate_base_tokens vocab (index ob) (words ob) (c, w)")
    have lt: "w < MAX_WORDS" using Cons.prems(2) by simp
    have w1: "w1 = w + length (in_vocab vocab (words ob))"
      using base_tokens_count[OF lt, of vocab "index ob" "words ob" c] r Cons.prems(2) by simp
    then have ne1: "w1 \<noteq> MAX_WORDS" and lt1: "w1 + base_retained vocab rest < MAX_WORDS"
      using Cons.prems(2) by simp_all
    let ?c2 = "c1\<lparr>sentence_boundary := (sentence_boundary c1)(s + 1 := w1)\<rparr>"
    have rec: "populate_base_sentences vocab rest (?c2, s + 1, w1) = (c', s', w')"
      using Cons.prems(1) ne r ne1 by (simp add: Let_def)
    from Cons.IH[OF rec lt1] show ?thesis using ne by simp
  qed
qed

lemma boundaries_monotone:
  fixes b :: "nat \<Rightarrow> nat"
  assumes "\<forall>j. j < s \<longrightarrow> b j \<le> b (j + 1)"
  shows "n \<le> m \<Longrightarrow> m \<le> s \<Longrightarrow> b n \<le> b m"
proof (induction m)
  case 0
  then show ?case by simp
next
  case (Suc m)
  show ?case
  proof (cases "n = Suc m")
    case True
    then show ?thesis by simp
  next
    case False
    then have "n \<le> m" "m \<le> s" "m < s" using Suc.prems by simp_all
    then have "b n \<le> b m" "b m \<le> b (m + 1)" using Suc.IH assms by simp_all
    then show ?thesis by simp
  qed
qed

lemma base_sentence_layout:
  assumes p: "populate_base_s2v_config c vocab (pre @ obj # post) = (c', s', w')"
    and W0: "base_retained vocab pre < MAX_WORDS"
    and ws: "ws = take (MAX_WORDS - base_retained vocab pre) (in_vocab vocab (words obj))"
    and ne: "ws \<noteq> []"
  shows "nonempty_count pre < s' \<and>
     sentence_boundary c' (nonempty_count pre) = base_retained vocab pre \<and>
     sentence_boundary c' (nonempty_count pre + 1) = base_retained vocab pre + length ws \<and>
     base_retained vocab pre + length ws \<le> w' \<and>
     (\<forall>i<length ws. word_indices c' (base_retained vocab pre + i) = the (vocab (ws ! i)) \<and>
        sent_adresses c' (base_retained vocab pre + i) = index obj) \<and>
     (\<forall>i. i < w' \<and> \<not> (base_retained vocab pre \<le> i \<and> i < base_retained vocab pre + length ws) \<longrightarrow>
        (\<exists>ob\<in>set pre \<union> set post. sent_adresses c' i = index ob))"
proof -
  let ?c0 = "c\<lparr>sentence_boundary := (sentence_boundary c)(0 := 0)\<rparr>"
  let ?W = "base_retained vocab pre"
  have lt: "(0::nat) < MAX_WORDS" by (simp add: MAX_WORDS_def)
  have p0: "populate_base_sentences vocab (pre @ obj # post) (?c0, 0, 0) = (c', s', w')"
    using p by (simp add: populate_base_s2v_config_def)
  obtain c1 s1 w1 where q: "populate_base_sentences vocab pre (?c0, 0, 0) = (c1, s1, w1)"
    by (cases "populate_base_sentences vocab pre (?c0, 0, 0)")
  have w1: "w1 = ?W"
    using base_sentences_counts[OF lt, of vocab pre ?c0 0] q W0 by simp
  have s1: "s1 = nonempty_count pre"
    using base_sentences_nonempty[OF q] W0 by simp
  have b0: "sentence_boundary ?c0 0 = 0" by simp
  have b1: "sentence_boundary c1 s1 = w1"
    using base_sentences_invariant[OF q lt b0] by simp
  have rows1: "\<forall>i. i < w1 \<longrightarrow> (\<exists>ob\<in>set pre. sent_adresses c1 i = index ob)"
    using base_sentences_rows[OF q] by auto
  have app: "populate_base_sentences vocab (obj # post) (c1, s1, w1) = (c', s', w')"
    using base_sentences_append[OF lt, of vocab pre "obj # post" ?c0 0] q p0 w1 W0 by simp
  have inv: "in_vocab vocab (words obj) \<noteq> []" using ws ne by auto
  then have wne: "words obj \<noteq> []" by auto
  obtain c2 w2 where t: "populate_base_tokens vocab (index obj) (words obj) (c1, w1) = (c2, w2)"
    by (cases "populate_base_tokens vocab (index obj) (words obj) (c1, w1)")
  have lt1: "w1 < MAX_WORDS" using w1 W0 by simp
  have w2: "w2 = ?W + length ws"
    using base_tokens_count[OF lt1, of vocab "index obj" "words obj" c1] t w1 W0
    by (auto simp: ws min_def)
  have w2le: "w2 \<le> MAX_WORDS"
    using base_tokens_count[OF lt1, of vocab "index obj" "words obj" c1] t by simp
  note f2 = base_tokens_frame[OF t]
  have rows2: "\<forall>i. w1 \<le> i \<and> i < w2 \<longrightarrow> sent_adresses c2 i = index obj"
    using base_tokens_rows[OF t] .
  have cont2: "\<forall>i. i < length ws \<longrightarrow> word_indices c2 (w1 + i) = the (vocab (ws ! i))"
  proof (intro allI impI)
    fix i assume i: "i < length ws"
    then have "i < w2 - w1" using w2 w1 by simp
    then have "word_indices c2 (w1 + i) = the (vocab (in_vocab vocab (words obj) ! i))"
      using base_tokens_content[OF t] by blast
    moreover have "ws ! i = in_vocab vocab (words obj) ! i" using i by (simp add: ws)
    ultimately show "word_indices c2 (w1 + i) = the (vocab (ws ! i))" by simp
  qed
  let ?c3 = "c2\<lparr>sentence_boundary := (sentence_boundary c2)(s1 + 1 := w2)\<rparr>"
  have K: "s1 + 1 \<le> s' \<and> w2 \<le> w' \<and> (\<forall>j. j \<le> s1 + 1 \<longrightarrow> sentence_boundary c' j = sentence_boundary ?c3 j) \<and>
      (\<forall>i. i < w2 \<longrightarrow> word_indices c' i = word_indices ?c3 i \<and> sent_adresses c' i = sent_adresses ?c3 i) \<and>
      (\<forall>i. w2 \<le> i \<and> i < w' \<longrightarrow> (\<exists>ob\<in>set post. sent_adresses c' i = index ob))"
  proof (cases "w2 = MAX_WORDS")
    case True
    then have "c' = ?c3 \<and> s' = s1 + 1 \<and> w' = w2"
      using app wne t by (auto simp: Let_def)
    then show ?thesis by auto
  next
    case False
    then have lt2: "w2 < MAX_WORDS" using w2le by simp
    have rec: "populate_base_sentences vocab post (?c3, s1 + 1, w2) = (c', s', w')"
      using app wne t False by (simp add: Let_def)
    have b3: "sentence_boundary ?c3 (s1 + 1) = w2" by simp
    have "s1 + 1 \<le> s' \<and> (\<forall>j. j \<le> s1 + 1 \<longrightarrow> sentence_boundary c' j = sentence_boundary ?c3 j)"
      using base_sentences_invariant[OF rec lt2 b3] by simp
    moreover have "w2 \<le> w' \<and>
      (\<forall>i. i < w2 \<longrightarrow> word_indices c' i = word_indices ?c3 i \<and> sent_adresses c' i = sent_adresses ?c3 i)"
      using base_sentences_frame[OF rec] by simp
    moreover have "\<forall>i. w2 \<le> i \<and> i < w' \<longrightarrow> (\<exists>ob\<in>set post. sent_adresses c' i = index ob)"
      using base_sentences_rows[OF rec] by blast
    ultimately show ?thesis by simp
  qed
  have c1: "nonempty_count pre < s'" using K s1 by simp
  have c2: "sentence_boundary c' (nonempty_count pre) = ?W"
  proof -
    have "sentence_boundary c' s1 = sentence_boundary ?c3 s1" using K by simp
    then show ?thesis using f2 b1 w1 s1 by simp
  qed
  have c3: "sentence_boundary c' (nonempty_count pre + 1) = ?W + length ws"
  proof -
    have "sentence_boundary c' (s1 + 1) = sentence_boundary ?c3 (s1 + 1)" using K by simp
    then show ?thesis using w2 s1 by simp
  qed
  have c4: "?W + length ws \<le> w'" using K w2 by simp
  have c5: "\<forall>i<length ws. word_indices c' (?W + i) = the (vocab (ws ! i)) \<and>
        sent_adresses c' (?W + i) = index obj"
  proof (intro allI impI)
    fix i assume i: "i < length ws"
    then have lt: "w1 + i < w2" using w1 w2 by simp
    then have "word_indices c' (w1 + i) = word_indices ?c3 (w1 + i) \<and>
        sent_adresses c' (w1 + i) = sent_adresses ?c3 (w1 + i)" using K by blast
    moreover have "sent_adresses c2 (w1 + i) = index obj" using rows2 lt by simp
    ultimately show "word_indices c' (?W + i) = the (vocab (ws ! i)) \<and> sent_adresses c' (?W + i) = index obj"
      using cont2 i w1 by simp
  qed
  have c6: "\<forall>i. i < w' \<and> \<not> (?W \<le> i \<and> i < ?W + length ws) \<longrightarrow>
        (\<exists>ob\<in>set pre \<union> set post. sent_adresses c' i = index ob)"
  proof (intro allI impI)
    fix i assume i: "i < w' \<and> \<not> (?W \<le> i \<and> i < ?W + length ws)"
    show "\<exists>ob\<in>set pre \<union> set post. sent_adresses c' i = index ob"
    proof (cases "i < w1")
      case True
      then have "i < w2" using f2 by simp
      then have "sent_adresses c' i = sent_adresses ?c3 i" using K by blast
      then have "sent_adresses c' i = sent_adresses c1 i" using f2 True by simp
      then show ?thesis using rows1 True by auto
    next
      case False
      then have "w2 \<le> i \<and> i < w'" using i w1 w2 by auto
      then have "\<exists>ob\<in>set post. sent_adresses c' i = index ob" using K by blast
      then show ?thesis by auto
    qed
  qed
  show ?thesis using c1 c2 c3 c4 c5 c6 by simp
qed

lemma upt_split_at:
  assumes "j < s"
  shows "[0..<s] = [0..<j] @ j # [j + 1..<s]"
proof -
  have "[0..<j + (s - j)] = [0..<j] @ [j..<j + (s - j)]" by (rule upt_add_eq_append) simp
  then have "[0..<s] = [0..<j] @ [j..<s]" using assms by simp
  then show ?thesis using assms by (simp add: upt_conv_Cons)
qed

section \<open>The plain engine over an arbitrary arithmetic, row by row\<close>

lemma saxpy_ar_other_row:
  assumes "r \<noteq> r'" and "k < n"
  shows "saxpy_ar ar n a x xo y (r' * n) (r * n + k) = y (r * n + k)"
proof -
  have "(r' * n \<le> r * n + k \<and> r * n + k < r' * n + n) = False"
    using row_disjoint[OF assms] by blast
  then show ?thesis unfolding saxpy_ar_def by (simp only: if_False)
qed

lemma saxpy_ar_same_row:
  "k < n \<Longrightarrow> saxpy_ar ar n a x xo y (r * n) (r * n + k) = axpy_entry ar a (x (xo + k)) (y (r * n + k))"
  by (simp add: saxpy_ar_def)

lemma sscal_ar_other_row:
  assumes "r \<noteq> r'" and "k < n"
  shows "sscal_ar ar n a x (r' * n) (r * n + k) = x (r * n + k)"
proof -
  have "(r' * n \<le> r * n + k \<and> r * n + k < r' * n + n) = False"
    using row_disjoint[OF assms] by blast
  then show ?thesis unfolding sscal_ar_def by (simp only: if_False)
qed

lemma sscal_ar_same_row:
  "k < n \<Longrightarrow> sscal_ar ar n a x (r * n) (r * n + k) = scal_entry ar a (x (r * n + k))"
  by (simp add: sscal_ar_def)

lemma base_word_step_ar_other:
  "sent_adresses c i \<noteq> r \<Longrightarrow> k < size_c c \<Longrightarrow>
   fst (base_word_step_ar ar c i st) (r * size_c c + k) = fst st (r * size_c c + k)"
  by (cases st) (simp add: base_word_step_ar_def Let_def saxpy_ar_other_row)

lemma base_word_step_ar_same:
  "sent_adresses c i = r \<Longrightarrow> k < size_c c \<Longrightarrow>
   fst (base_word_step_ar ar c i st) (r * size_c c + k) =
     axpy_entry ar (word_weights c (word_indices c i))
       (word_vectors c (word_indices c i * size_c c + k)) (fst st (r * size_c c + k))"
  by (cases st) (simp add: base_word_step_ar_def Let_def saxpy_ar_same_row)

lemma base_word_step_ar_locals:
  "fst (snd (base_word_step_ar ar c i st)) = fst (snd st) + 1 \<and>
   snd (snd (base_word_step_ar ar c i st)) = sent_adresses c i * size_c c"
  by (cases st) (simp add: base_word_step_ar_def Let_def)

lemma base_words_ar_other:
  "\<forall>i\<in>set is. sent_adresses c i \<noteq> r \<Longrightarrow> k < size_c c \<Longrightarrow>
   fst (fold (base_word_step_ar ar c) is st) (r * size_c c + k) = fst st (r * size_c c + k)"
  by (induction "is" arbitrary: st) (simp_all add: base_word_step_ar_other)

lemma base_words_ar_same:
  "\<forall>i\<in>set is. sent_adresses c i = r \<Longrightarrow> k < size_c c \<Longrightarrow>
   fst (fold (base_word_step_ar ar c) is st) (r * size_c c + k) =
     foldl (\<lambda>acc i. axpy_entry ar (word_weights c (word_indices c i))
              (word_vectors c (word_indices c i * size_c c + k)) acc)
       (fst st (r * size_c c + k)) is"
  by (induction "is" arbitrary: st) (simp_all add: base_word_step_ar_same)

lemma base_words_ar_len:
  "fst (snd (fold (base_word_step_ar ar c) is st)) = fst (snd st) + length is"
  by (induction "is" arbitrary: st) (simp_all add: base_word_step_ar_locals)

lemma base_words_ar_row:
  "is \<noteq> [] \<Longrightarrow> snd (snd (fold (base_word_step_ar ar c) is st)) = sent_adresses c (last is) * size_c c"
proof (induction "is" arbitrary: st)
  case Nil
  then show ?case by simp
next
  case (Cons i "is")
  then show ?case by (cases "is = []") (simp_all add: base_word_step_ar_locals)
qed

lemma base_sentence_ar_other:
  assumes "\<forall>i. sentence_boundary c n \<le> i \<and> i < sentence_boundary c (n + 1) \<longrightarrow> sent_adresses c i \<noteq> r"
    and "k < size_c c"
  shows "fst (base_sentence_step_ar ar c n st) (r * size_c c + k) = fst st (r * size_c c + k)"
proof -
  obtain sv row where st: "st = (sv, row)" by (cases st)
  let ?is = "[sentence_boundary c n..<sentence_boundary c (n + 1)]"
  let ?f = "fold (base_word_step_ar ar c) ?is (sv, 0, row)"
  have oth: "\<forall>i\<in>set ?is. sent_adresses c i \<noteq> r" using assms(1) by simp
  have a: "fst ?f (r * size_c c + k) = sv (r * size_c c + k)"
    using base_words_ar_other[OF oth assms(2), of ar "(sv, 0, row)"] by simp
  obtain sv1 l1 r1 where f: "?f = (sv1, l1, r1)" by (cases ?f)
  have len: "l1 = length ?is"
    using base_words_ar_len[of ar c ?is "(sv, 0, row)"] f by simp
  show ?thesis
  proof (cases "l1 > 0")
    case False
    then have "fst (base_sentence_step_ar ar c n st) = sv1"
      using f by (simp add: base_sentence_step_ar_def st Let_def)
    then show ?thesis using a f by (simp add: st)
  next
    case True
    then have ne: "?is \<noteq> []" using len by auto
    then have "last ?is \<in> set ?is" by (rule last_in_set)
    then have lr: "r \<noteq> sent_adresses c (last ?is)" using oth by blast
    have row: "r1 = sent_adresses c (last ?is) * size_c c"
      using base_words_ar_row[OF ne, of ar c "(sv, 0, row)"] f by simp
    have "fst (base_sentence_step_ar ar c n st) = sscal_ar ar (size_c c) (one_over ar l1) sv1 r1"
      using True f by (simp add: base_sentence_step_ar_def st Let_def)
    then have "fst (base_sentence_step_ar ar c n st) (r * size_c c + k) = sv1 (r * size_c c + k)"
      unfolding row using sscal_ar_other_row[OF lr assms(2)] by simp
    then show ?thesis using a f by (simp add: st)
  qed
qed

lemma base_sentences_ar_other:
  assumes "\<forall>n\<in>set ns. \<forall>i. sentence_boundary c n \<le> i \<and> i < sentence_boundary c (n + 1) \<longrightarrow>
             sent_adresses c i \<noteq> r"
    and "k < size_c c"
  shows "fst (fold (base_sentence_step_ar ar c) ns st) (r * size_c c + k) = fst st (r * size_c c + k)"
  using assms(1)
proof (induction ns arbitrary: st)
  case Nil
  then show ?case by simp
next
  case (Cons n ns)
  have "fst (base_sentence_step_ar ar c n st) (r * size_c c + k) = fst st (r * size_c c + k)"
    using Cons.prems assms(2) by (intro base_sentence_ar_other) simp_all
  then show ?case using Cons by simp
qed

lemma base_sentence_ar_same:
  assumes "sentence_boundary c n < sentence_boundary c (n + 1)"
    and "\<forall>i. sentence_boundary c n \<le> i \<and> i < sentence_boundary c (n + 1) \<longrightarrow> sent_adresses c i = r"
    and "k < size_c c"
  shows "fst (base_sentence_step_ar ar c n st) (r * size_c c + k) =
     scal_entry ar (one_over ar (sentence_boundary c (n + 1) - sentence_boundary c n))
       (foldl (\<lambda>acc i. axpy_entry ar (word_weights c (word_indices c i))
                 (word_vectors c (word_indices c i * size_c c + k)) acc)
          (fst st (r * size_c c + k)) [sentence_boundary c n..<sentence_boundary c (n + 1)])"
proof -
  obtain sv row where st: "st = (sv, row)" by (cases st)
  let ?is = "[sentence_boundary c n..<sentence_boundary c (n + 1)]"
  let ?f = "fold (base_word_step_ar ar c) ?is (sv, 0, row)"
  have same: "\<forall>i\<in>set ?is. sent_adresses c i = r" using assms(2) by simp
  have ne: "?is \<noteq> []" using assms(1) by simp
  then have "last ?is \<in> set ?is" by (rule last_in_set)
  then have lr: "sent_adresses c (last ?is) = r" using same by blast
  have row: "snd (snd ?f) = r * size_c c" using base_words_ar_row[OF ne, of ar c "(sv, 0, row)"] lr by simp
  have len: "fst (snd ?f) = sentence_boundary c (n + 1) - sentence_boundary c n"
    using base_words_ar_len[of ar c ?is "(sv, 0, row)"] by simp
  have pos: "fst (snd ?f) > 0" using len assms(1) by simp
  have acc: "fst ?f (r * size_c c + k) =
     foldl (\<lambda>acc i. axpy_entry ar (word_weights c (word_indices c i))
              (word_vectors c (word_indices c i * size_c c + k)) acc)
       (sv (r * size_c c + k)) ?is"
    using base_words_ar_same[OF same assms(3), of ar "(sv, 0, row)"] by simp
  obtain sv1 l1 r1 where f: "?f = (sv1, l1, r1)" by (cases ?f)
  have "fst (base_sentence_step_ar ar c n st) = sscal_ar ar (size_c c) (one_over ar l1) sv1 r1"
    using pos f by (simp add: base_sentence_step_ar_def st Let_def)
  then have "fst (base_sentence_step_ar ar c n st) (r * size_c c + k) =
      scal_entry ar (one_over ar l1) (sv1 (r * size_c c + k))"
    using row f assms(3) by (simp add: sscal_ar_same_row)
  then show ?thesis using acc len f by (simp add: st)
qed

section \<open>The average of one sentence of a batch, over an arbitrary arithmetic\<close>

lemma base_sentence_average_ar:
  assumes batch: "batch = pre @ obj # post"
    and others: "\<forall>ob\<in>set pre \<union> set post. index ob \<noteq> index obj"
    and W0: "base_retained vocab pre < MAX_WORDS"
    and ws: "ws = take (MAX_WORDS - base_retained vocab pre) (in_vocab vocab (words obj))"
    and ne: "ws \<noteq> []"
    and k: "k < size_c c"
  shows "sentence_vectors (fst (train_average_cy_base_ar ar c vocab batch)) (index obj * size_c c + k) =
     scal_entry ar (one_over ar (length ws))
       (foldl (\<lambda>acc t. axpy_entry ar (word_weights c (the (vocab t)))
                 (word_vectors c (the (vocab t) * size_c c + k)) acc)
          (sentence_vectors c (index obj * size_c c + k)) ws)"
proof -
  obtain c' s' w' where p: "populate_base_s2v_config c vocab (pre @ obj # post) = (c', s', w')"
    by (cases "populate_base_s2v_config c vocab (pre @ obj # post)")
  let ?c0 = "c\<lparr>sentence_boundary := (sentence_boundary c)(0 := 0)\<rparr>"
  let ?W = "base_retained vocab pre"
  let ?j = "nonempty_count pre"
  let ?n = "length ws"
  let ?r = "index obj"
  let ?b = "sentence_boundary c'"
  let ?z = "sentence_vectors c (index obj * size_c c + k)"
  let ?g = "\<lambda>acc i. axpy_entry ar (word_weights c' (word_indices c' i))
      (word_vectors c' (word_indices c' i * size_c c' + k)) acc"
  have lt: "(0::nat) < MAX_WORDS" by (simp add: MAX_WORDS_def)
  have p0: "populate_base_sentences vocab (pre @ obj # post) (?c0, 0, 0) = (c', s', w')"
    using p by (simp add: populate_base_s2v_config_def)
  have fr: "size_c c' = size_c c \<and> word_vectors c' = word_vectors c \<and> word_weights c' = word_weights c \<and>
      sentence_vectors c' = sentence_vectors c"
    using base_sentences_frame[OF p0] by simp
  have b0: "sentence_boundary ?c0 0 = 0" by simp
  note inv = base_sentences_invariant[OF p0 lt b0]
  have step: "\<forall>jj. jj < s' \<longrightarrow> ?b jj \<le> ?b (jj + 1)" using inv by simp
  have top: "\<And>jj. jj \<le> s' \<Longrightarrow> ?b jj \<le> w'" using inv by simp
  note mono = boundaries_monotone[of s' ?b, OF step]
  note L = base_sentence_layout[OF p W0 ws ne]
  have j: "?j < s'" and bj: "?b ?j = ?W" and bj1: "?b (?j + 1) = ?W + ?n" and Wn: "?W + ?n \<le> w'"
    using L by simp_all
  have own: "\<And>i. ?W \<le> i \<and> i < ?W + ?n \<Longrightarrow> sent_adresses c' i = ?r"
  proof -
    fix i assume i: "?W \<le> i \<and> i < ?W + ?n"
    then have "i - ?W < ?n" by auto
    then have "sent_adresses c' (?W + (i - ?W)) = ?r" using L by blast
    then show "sent_adresses c' i = ?r" using i by simp
  qed
  have oth: "\<And>i. i < w' \<Longrightarrow> \<not> (?W \<le> i \<and> i < ?W + ?n) \<Longrightarrow> sent_adresses c' i \<noteq> ?r"
  proof -
    fix i assume "i < w'" "\<not> (?W \<le> i \<and> i < ?W + ?n)"
    then have "\<exists>ob\<in>set pre \<union> set post. sent_adresses c' i = index ob" using L by blast
    then show "sent_adresses c' i \<noteq> ?r" using others by auto
  qed
  have kk: "k < size_c c'" using k fr by simp
  have before: "\<forall>n\<in>set [0..<?j]. \<forall>i. ?b n \<le> i \<and> i < ?b (n + 1) \<longrightarrow> sent_adresses c' i \<noteq> ?r"
  proof (intro ballI allI impI)
    fix n i assume n: "n \<in> set [0..<?j]" and i: "?b n \<le> i \<and> i < ?b (n + 1)"
    have "n + 1 \<le> ?j" using n by simp
    then have "?b (n + 1) \<le> ?b ?j" using mono[of "n + 1" ?j] j by simp
    then have "i < ?W" using i bj by simp
    then show "sent_adresses c' i \<noteq> ?r" using oth[of i] Wn by simp
  qed
  have after: "\<forall>n\<in>set [?j + 1..<s']. \<forall>i. ?b n \<le> i \<and> i < ?b (n + 1) \<longrightarrow> sent_adresses c' i \<noteq> ?r"
  proof (intro ballI allI impI)
    fix n i assume n: "n \<in> set [?j + 1..<s']" and i: "?b n \<le> i \<and> i < ?b (n + 1)"
    have n': "?j + 1 \<le> n" "n < s'" using n by simp_all
    then have "?b (?j + 1) \<le> ?b n" using mono[of "?j + 1" n] by simp
    then have lo: "?W + ?n \<le> i" using i bj1 by simp
    have "?b (n + 1) \<le> w'" using top[of "n + 1"] n' by simp
    then have "i < w'" using i by simp
    then show "sent_adresses c' i \<noteq> ?r" using oth[of i] lo by simp
  qed
  have split: "[0..<s'] = [0..<?j] @ ?j # [?j + 1..<s']"
    using j by (rule upt_split_at)
  let ?init = "(sentence_vectors c', 0::nat)"
  let ?st1 = "fold (base_sentence_step_ar ar c') [0..<?j] ?init"
  let ?st2 = "base_sentence_step_ar ar c' ?j ?st1"
  have v1: "fst ?st1 (?r * size_c c' + k) = ?z"
    using base_sentences_ar_other[OF before kk, of ar ?init] fr by simp
  have pos: "?b ?j < ?b (?j + 1)" using bj bj1 ne by simp
  have same: "\<forall>i. ?b ?j \<le> i \<and> i < ?b (?j + 1) \<longrightarrow> sent_adresses c' i = ?r"
    using own bj bj1 by simp
  have v2: "fst ?st2 (?r * size_c c' + k) =
      scal_entry ar (one_over ar ?n) (foldl ?g ?z [?W..<?W + ?n])"
    using base_sentence_ar_same[OF pos same kk, of ar ?st1] v1 bj bj1 by simp
  have v3: "fst (fold (base_sentence_step_ar ar c') [?j + 1..<s'] ?st2) (?r * size_c c' + k) =
      fst ?st2 (?r * size_c c' + k)"
    using base_sentences_ar_other[OF after kk, of ar ?st2] .
  have total: "fst (fold (base_sentence_step_ar ar c') [0..<s'] ?init) (?r * size_c c' + k) =
      scal_entry ar (one_over ar ?n) (foldl ?g ?z [?W..<?W + ?n])"
    unfolding split using v3 v2 by simp
  have idx: "map (word_indices c') [?W..<?W + ?n] = map (\<lambda>t. the (vocab t)) ws"
  proof (rule nth_equalityI)
    show "length (map (word_indices c') [?W..<?W + ?n]) = length (map (\<lambda>t. the (vocab t)) ws)" by simp
  next
    fix i assume "i < length (map (word_indices c') [?W..<?W + ?n])"
    then have i: "i < ?n" by simp
    then have "word_indices c' (?W + i) = the (vocab (ws ! i))" using L by blast
    then show "map (word_indices c') [?W..<?W + ?n] ! i = map (\<lambda>t. the (vocab t)) ws ! i"
      using i by simp
  qed
  let ?h = "\<lambda>acc wi. axpy_entry ar (word_weights c' wi) (word_vectors c' (wi * size_c c' + k)) acc"
  have "foldl ?g ?z [?W..<?W + ?n] = foldl ?h ?z (map (word_indices c') [?W..<?W + ?n])"
    by (simp add: foldl_map)
  also have "\<dots> = foldl ?h ?z (map (\<lambda>t. the (vocab t)) ws)" by (simp only: idx)
  also have "\<dots> = foldl (\<lambda>acc t. axpy_entry ar (word_weights c' (the (vocab t)))
      (word_vectors c' (the (vocab t) * size_c c' + k)) acc) ?z ws"
    by (simp add: foldl_map)
  finally have conv: "foldl ?g ?z [?W..<?W + ?n] =
    foldl (\<lambda>acc t. axpy_entry ar (word_weights c (the (vocab t)))
      (word_vectors c (the (vocab t) * size_c c + k)) acc) ?z ws"
    using fr by simp
  show ?thesis
    using total conv fr
    by (simp add: batch train_average_cy_base_ar_def p compute_base_sentence_averages_ar_def)
qed

section \<open>Single precision in the scenario with cat and sat\<close>

lemma float32I_div:
  "\<bar>m\<bar> < 2 ^ 24 \<Longrightarrow> e \<le> 149 \<Longrightarrow> x = real_of_int m / 2 ^ e \<Longrightarrow> x \<in> float32"
  unfolding float32_def by blast

lemma float32_values:
  "(0::real) \<in> float32" "(1::real) \<in> float32" "(1 / 2 :: real) \<in> float32" "(1 / 4 :: real) \<in> float32"
  "(5033165 / 16777216 :: real) \<in> float32" "(5033165 / 33554432 :: real) \<in> float32"
proof -
  show "(0::real) \<in> float32" by (rule float32I_div[of 0 0]) simp_all
  show "(1::real) \<in> float32" by (rule float32I_div[of 1 0]) simp_all
  show "(1 / 2 :: real) \<in> float32" by (rule float32I_div[of 1 1]) simp_all
  show "(1 / 4 :: real) \<in> float32" by (rule float32I_div[of 1 2]) simp_all
  show "(5033165 / 16777216 :: real) \<in> float32" by (rule float32I_div[of 5033165 24]) simp_all
  show "(5033165 / 33554432 :: real) \<in> float32" by (rule float32I_div[of 5033165 25]) simp_all
qed

lemma float32_normal_values:
  "(0::real) \<in> float32_normal" "(1::real) \<in> float32_normal" "(1 / 2 :: real) \<in> float32_normal"
  "(1 / 4 :: real) \<in> float32_normal"
  "(5033165 / 16777216 :: real) \<in> float32_normal" "(5033165 / 33554432 :: real) \<in> float32_normal"
  unfolding float32_normal_def using float32_values by simp_all

lemma exact_one_over_2:
  "exact_when_representable ar \<Longrightarrow> one_over ar 2 = 1 / 2"
proof -
  assume e: "exact_when_representable ar"
  have "(0::nat) < 2 \<and> (2::nat) \<le> 2 ^ 24 \<and> 1 / real 2 \<in> float32_normal"
    using float32_normal_values(3) by simp
  then have "one_over ar 2 = 1 / real 2" using e unfolding exact_when_representable_def by blast
  then show ?thesis by simp
qed

lemma exact_axpy:
  "exact_when_representable ar \<Longrightarrow> a \<in> float32_normal \<Longrightarrow> x \<in> float32_normal \<Longrightarrow>
   y \<in> float32_normal \<Longrightarrow> a * x \<in> float32_normal \<Longrightarrow> y + a * x \<in> float32_normal \<Longrightarrow>
   axpy_entry ar a x y = y + a * x"
  unfolding exact_when_representable_def by blast

lemma exact_scal:
  "exact_when_representable ar \<Longrightarrow> a \<in> float32_normal \<Longrightarrow> x \<in> float32_normal \<Longrightarrow>
   a * x \<in> float32_normal \<Longrightarrow> scal_entry ar a x = a * x"
  unfolding exact_when_representable_def by blast

lemma cat_sat_populate_f32:
  "populate_base_s2v_config cat_sat_config_f32 cat_sat_vocab [cat_sat_sentence] =
     (cat_sat_config_f32\<lparr>word_indices := (\<lambda>i. if i = 1 then 1 else 0),
        sentence_boundary := (\<lambda>i. if i = 1 then 2 else 0)\<rparr>, 1, 2)"
  by (simp add: populate_base_s2v_config_def cat_sat_sentence_def cat_sat_vocab_def
      Let_def MAX_WORDS_def cat_sat_config_f32_def fun_eq_iff)

lemma cat_sat_result_ar:
  "snd (train_average_cy_base_ar ar cat_sat_config_f32 cat_sat_vocab [cat_sat_sentence]) = (1, 2) \<and>
   map (sentence_vectors (fst (train_average_cy_base_ar ar cat_sat_config_f32 cat_sat_vocab [cat_sat_sentence])))
     [0, 1] =
     [scal_entry ar (one_over ar 2) (axpy_entry ar (5033165 / 16777216) 0 (axpy_entry ar (1 / 2) 1 0)),
      scal_entry ar (one_over ar 2) (axpy_entry ar (5033165 / 16777216) 1 (axpy_entry ar (1 / 2) 0 0))]"
  unfolding train_average_cy_base_ar_def cat_sat_populate_f32
  apply (simp add: compute_base_sentence_averages_ar_def base_sentence_step_ar_def base_word_step_ar_def
      saxpy_ar_def sscal_ar_def cat_sat_config_f32_def upt_2 Let_def)
  apply (simp add: numeral_2_eq_2)
  done

lemma cat_sat_result_f32:
  assumes e: "exact_when_representable ar"
  shows "snd (train_average_cy_base_ar ar cat_sat_config_f32 cat_sat_vocab [cat_sat_sentence]) = (1, 2) \<and>
   map (sentence_vectors (fst (train_average_cy_base_ar ar cat_sat_config_f32 cat_sat_vocab [cat_sat_sentence])))
     [0, 1] = [1 / 4, 5033165 / 33554432]"
proof -
  have a1: "axpy_entry ar (1 / 2) 1 0 = 1 / 2"
    using exact_axpy[OF e, of "1 / 2" 1 0] float32_normal_values by simp
  have a2: "axpy_entry ar (5033165 / 16777216) 0 (1 / 2) = 1 / 2"
    using exact_axpy[OF e, of "5033165 / 16777216" 0 "1 / 2"] float32_normal_values by simp
  have a3: "axpy_entry ar (1 / 2) 0 0 = 0"
    using exact_axpy[OF e, of "1 / 2" 0 0] float32_normal_values by simp
  have a4: "axpy_entry ar (5033165 / 16777216) 1 0 = 5033165 / 16777216"
    using exact_axpy[OF e, of "5033165 / 16777216" 1 0] float32_normal_values by simp
  have s1: "scal_entry ar (1 / 2) (1 / 2) = 1 / 4"
    using exact_scal[OF e, of "1 / 2" "1 / 2"] float32_normal_values by simp
  have s2: "scal_entry ar (1 / 2) (5033165 / 16777216) = 5033165 / 33554432"
    using exact_scal[OF e, of "1 / 2" "5033165 / 16777216"] float32_normal_values by simp
  show ?thesis
    using cat_sat_result_ar[of ar] by (simp add: exact_one_over_2[OF e] a1 a2 a3 a4 s1 s2)
qed

lemma float32_grid:
  assumes y: "y \<in> float32" and big: "2 ^ 24 / 2 ^ (q + 1) \<le> \<bar>y\<bar>"
  shows "\<exists>M::int. y = real_of_int M / 2 ^ q"
proof -
  obtain m :: int and e :: nat where m: "\<bar>m\<bar> < 2 ^ 24"
    and cases: "(e \<le> 104 \<and> y = real_of_int m * 2 ^ e) \<or> (e \<le> 149 \<and> y = real_of_int m / 2 ^ e)"
    using y unfolding float32_def by blast
  from cases show ?thesis
  proof
    assume "e \<le> 104 \<and> y = real_of_int m * 2 ^ e"
    then have "y = real_of_int (m * 2 ^ e * 2 ^ q) / 2 ^ q" by simp
    then show ?thesis by blast
  next
    assume a: "e \<le> 149 \<and> y = real_of_int m / 2 ^ e"
    have eq: "e \<le> q"
    proof (rule ccontr)
      assume "\<not> e \<le> q"
      then have "q + 1 \<le> e" by simp
      then have p: "(2::real) ^ (q + 1) \<le> 2 ^ e" by (intro power_increasing) simp_all
      have mr: "\<bar>real_of_int m\<bar> < 2 ^ 24"
      proof -
        have "real_of_int \<bar>m\<bar> < real_of_int (2 ^ 24)" using m by (simp only: of_int_less_iff)
        then show ?thesis by simp
      qed
      have "\<bar>y\<bar> = \<bar>real_of_int m\<bar> / 2 ^ e" using a by (simp add: abs_divide)
      also have "\<dots> < 2 ^ 24 / 2 ^ e" using mr by (simp add: divide_strict_right_mono)
      also have "\<dots> \<le> 2 ^ 24 / 2 ^ (q + 1)" using p by (intro divide_left_mono) simp_all
      finally show False using big by simp
    qed
    then obtain d where "q = e + d" using le_Suc_ex by blast
    then have "y = real_of_int (m * 2 ^ d) / 2 ^ q" using a by (simp add: power_add)
    then show ?thesis by blast
  qed
qed

lemma nearest_three_tenths: "nearest_float32 (3 / 10) (5033165 / 16777216)"
  unfolding nearest_float32_def
proof (intro conjI ballI)
  show "(5033165 / 16777216 :: real) \<in> float32" by (rule float32_values(5))
next
  fix z :: real assume z: "z \<in> float32"
  show "\<bar>3 / 10 - 5033165 / 16777216\<bar> \<le> \<bar>3 / 10 - z\<bar>"
  proof (cases "1 / 4 \<le> \<bar>z\<bar>")
    case False
    then show ?thesis by simp
  next
    case True
    then have "2 ^ 24 / 2 ^ (25 + 1) \<le> \<bar>z\<bar>" by simp
    from float32_grid[OF z this] obtain M :: int where M: "z = real_of_int M / 2 ^ 25" by blast
    have "(4::int) \<le> \<bar>100663296 - 10 * M\<bar>" by presburger
    then have "real_of_int 4 \<le> real_of_int \<bar>100663296 - 10 * M\<bar>" by (simp only: of_int_le_iff)
    then have g: "4 \<le> \<bar>100663296 - 10 * real_of_int M\<bar>" by simp
    have d: "3 / 10 - z = (100663296 - 10 * real_of_int M) / 335544320" using M by simp
    have "\<bar>3 / 10 - z\<bar> = \<bar>(100663296 - 10 * real_of_int M) / 335544320\<bar>" by (simp only: d)
    also have "\<dots> = \<bar>100663296 - 10 * real_of_int M\<bar> / 335544320" by (simp only: abs_divide abs_numeral)
    finally show ?thesis using g by simp
  qed
qed

lemma nearest_three_twentieths: "nearest_float32 (3 / 20) (5033165 / 33554432)"
  unfolding nearest_float32_def
proof (intro conjI ballI)
  show "(5033165 / 33554432 :: real) \<in> float32" by (rule float32_values(6))
next
  fix z :: real assume z: "z \<in> float32"
  show "\<bar>3 / 20 - 5033165 / 33554432\<bar> \<le> \<bar>3 / 20 - z\<bar>"
  proof (cases "1 / 8 \<le> \<bar>z\<bar>")
    case False
    then show ?thesis by simp
  next
    case True
    then have "2 ^ 24 / 2 ^ (26 + 1) \<le> \<bar>z\<bar>" by simp
    from float32_grid[OF z this] obtain M :: int where M: "z = real_of_int M / 2 ^ 26" by blast
    have "(4::int) \<le> \<bar>100663296 - 10 * M\<bar>" by presburger
    then have "real_of_int 4 \<le> real_of_int \<bar>100663296 - 10 * M\<bar>" by (simp only: of_int_le_iff)
    then have g: "4 \<le> \<bar>100663296 - 10 * real_of_int M\<bar>" by simp
    have d: "3 / 20 - z = (100663296 - 10 * real_of_int M) / 671088640" using M by simp
    have "\<bar>3 / 20 - z\<bar> = \<bar>(100663296 - 10 * real_of_int M) / 671088640\<bar>" by (simp only: d)
    also have "\<dots> = \<bar>100663296 - 10 * real_of_int M\<bar> / 671088640" by (simp only: abs_divide abs_numeral)
    finally show ?thesis using g by simp
  qed
qed

lemma trace_populate:
  "populate_base_s2v_config trace_config cat_sat_vocab [cat_sat_sentence] =
     (trace_config\<lparr>word_indices := (\<lambda>i. if i = 1 then 1 else 0),
        sentence_boundary := (\<lambda>i. if i = 1 then 2 else 0)\<rparr>, 1, 2)"
  "populate_base_s2v_config trace_config cat_sat_vocab [sat_cat_sentence] =
     (trace_config\<lparr>word_indices := (\<lambda>i. if i = 0 then 1 else 0),
        sentence_boundary := (\<lambda>i. if i = 1 then 2 else 0)\<rparr>, 1, 2)"
  by (simp_all add: populate_base_s2v_config_def cat_sat_sentence_def sat_cat_sentence_def cat_sat_vocab_def
      Let_def MAX_WORDS_def trace_config_def fun_eq_iff)

lemma token_order_observable:
  "sentence_vectors (fst (train_average_cy_base_ar trace_arith trace_config cat_sat_vocab
      [cat_sat_sentence])) 0 = [0, 2] \<and>
   sentence_vectors (fst (train_average_cy_base_ar trace_arith trace_config cat_sat_vocab
      [sat_cat_sentence])) 0 = [2, 0]"
  unfolding train_average_cy_base_ar_def trace_populate
  by (simp add: compute_base_sentence_averages_ar_def base_sentence_step_ar_def base_word_step_ar_def
      saxpy_ar_def sscal_ar_def trace_config_def trace_arith_def upt_2 Let_def)

section \<open>The slots of one sentence of a batch, subword mode\<close>






lemma ft_sentences_sents_le:
  "populate_ft_sentences cnb fhb vocab batch (c, s, w) = (c', s', w') \<Longrightarrow> w < MAX_WORDS \<Longrightarrow>
   s' + w \<le> w' + s"
proof (induction batch arbitrary: c s w)
  case Nil
  then show ?case by simp
next
  case (Cons ob rest)
  show ?case
  proof (cases "words ob = []")
    case True
    then show ?thesis using Cons by simp
  next
    case ne: False
    obtain c1 w1 where r: "populate_ft_tokens cnb fhb vocab (index ob) (words ob) (c, w) = (c1, w1)"
      by (cases "populate_ft_tokens cnb fhb vocab (index ob) (words ob) (c, w)")
    have w1: "w1 = min MAX_WORDS (w + length (words ob))"
      using ft_tokens_count[OF Cons.prems(2), of cnb fhb vocab "index ob" "words ob" c] r by simp
    have "1 \<le> length (words ob)" using ne by (cases "words ob") simp_all
    then have grow: "w + 1 \<le> w1" using w1 Cons.prems(2) by simp
    let ?c2 = "c1\<lparr>sentence_boundary := (sentence_boundary c1)(s + 1 := w1)\<rparr>"
    show ?thesis
    proof (cases "w1 = MAX_WORDS")
      case True
      then have "c' = ?c2 \<and> s' = s + 1 \<and> w' = w1"
        using Cons.prems(1) ne r by (auto simp: Let_def)
      then show ?thesis using grow by simp
    next
      case False
      then have lt: "w1 < MAX_WORDS" using w1 by simp
      have rec: "populate_ft_sentences cnb fhb vocab rest (?c2, s + 1, w1) = (c', s', w')"
        using Cons.prems(1) ne r False by (simp add: Let_def)
      from Cons.IH[OF rec lt] show ?thesis using grow by simp
    qed
  qed
qed

section \<open>Claims\<close>

text \<open>
  C3 (capacity of the flat arrays). The plain populator increments \<open>eff_sents\<close> for every
  sentence that has a token, also when none of its tokens is in the vocabulary, while the
  cap only watches \<open>eff_words\<close>. On 10001 sentences of one unknown token each it
  writes \<open>sentence_boundary[10001]\<close>, one past the last entry of an array of
  \<open>MAX_WORDS + 1\<close> entries: the claim fails on the code. The subword populator keeps
  every token, so there \<open>eff_sents\<close> is at most \<open>eff_words\<close> and stays below the capacity.
\<close>

theorem base_boundary_index_overflow:
  "fst (snd (populate_base_s2v_config c Map.empty (replicate 10001 oov_sentence))) = 10001 \<and>
   \<not> 10001 < sentence_boundary_capacity \<and>
   fst (snd (populate_ft_s2v_config cnb fhb d vocab batch)) < sentence_boundary_capacity"
proof -
  have "snd (populate_base_sentences Map.empty (replicate 10001 oov_sentence)
          (c\<lparr>sentence_boundary := (sentence_boundary c)(0 := 0)\<rparr>, 0, 0)) = (0 + 10001, 0)"
    by (rule base_sentences_all_oov) (simp_all add: oov_sentence_def in_vocab_def MAX_WORDS_def)
  then have b: "fst (snd (populate_base_s2v_config c Map.empty (replicate 10001 oov_sentence))) = 10001"
    by (simp add: populate_base_s2v_config_def)
  let ?d0 = "d\<lparr>sentence_boundary := (sentence_boundary d)(0 := 0)\<rparr>"
  obtain d' s' w' where f: "populate_ft_sentences cnb fhb vocab batch (?d0, 0, 0) = (d', s', w')"
    by (cases "populate_ft_sentences cnb fhb vocab batch (?d0, 0, 0)")
  have lt: "(0::nat) < MAX_WORDS" by (simp add: MAX_WORDS_def)
  have "s' \<le> w'" using ft_sentences_sents_le[OF f lt] by simp
  moreover have "w' \<le> MAX_WORDS"
    using ft_sentences_counts[OF lt, of cnb fhb vocab batch ?d0 0] f by simp
  ultimately have "fst (snd (populate_ft_s2v_config cnb fhb d vocab batch)) < sentence_boundary_capacity"
    by (simp add: populate_ft_s2v_config_def f sentence_boundary_capacity_def)
  then show ?thesis using b by (simp add: sentence_boundary_capacity_def MAX_WORDS_def)
qed

text \<open>
  C1 as stated fails: a batch of one sentence of 10001 tokens, all in the vocabulary, has
  more than \<open>MAX_WORDS\<close> kept tokens and its only sentence lies partly beyond the cutoff,
  yet the populator returns \<open>eff_sents = 1\<close>: the sentence in which the cutoff falls is
  counted.
\<close>

theorem cutoff_sentence_is_counted:
  "MAX_WORDS < base_retained cat_sat_vocab [long_sentence] \<and>
   length (in_vocab cat_sat_vocab (words long_sentence)) = 10001 \<and>
   snd (populate_base_s2v_config cat_sat_config cat_sat_vocab [long_sentence]) = (1, MAX_WORDS)"
proof -
  have k: "length (in_vocab cat_sat_vocab (words long_sentence)) = 10001"
    by (simp add: long_sentence_def in_vocab_cat_replicate)
  have ne: "words long_sentence \<noteq> []" by (simp add: long_sentence_def)
  have lt: "(0::nat) < MAX_WORDS" by (simp add: MAX_WORDS_def)
  have w: "\<And>c. snd (populate_base_tokens cat_sat_vocab (index long_sentence) (words long_sentence) (c, 0))
      = MAX_WORDS"
    using base_tokens_count[OF lt, of cat_sat_vocab "index long_sentence" "words long_sentence"] k
    by (simp add: MAX_WORDS_def)
  have "snd (populate_base_s2v_config cat_sat_config cat_sat_vocab [long_sentence]) = (1, MAX_WORDS)"
    unfolding populate_base_s2v_config_def
    using ne w by (simp add: base_sentences_Cons Let_def del: populate_base_sentences.simps(2))
  then show ?thesis using k by (simp add: MAX_WORDS_def)
qed

text \<open>
  C1, amended (truncation at \<open>MAX_WORDS\<close>). When a batch has more kept tokens than
  \<open>MAX_WORDS\<close>, it splits into the sentences before the cutoff, the sentence \<open>obj\<close> in
  which the cutoff falls, with tokens \<open>ts1\<close> up to and including the one that fills the
  last slot, and the rest. The populator returns \<open>eff_words = MAX_WORDS\<close>; whatever
  follows the cutoff (the tokens \<open>ts3\<close>, the sentences \<open>post'\<close>) has no effect on the
  struct or on the counts; and \<open>eff_sents\<close> counts the sentences with a token before the
  cutoff and the sentence \<open>obj\<close> itself, none after. Both populators.
\<close>

theorem cutoff_truncation:
  "(MAX_WORDS < base_retained vocab batch \<longrightarrow>
      (\<exists>pre obj post ts1 ts2. batch = pre @ obj # post \<and> words obj = ts1 @ ts2 \<and> ts1 \<noteq> [] \<and>
         vocab (last ts1) \<noteq> None \<and>
         base_retained vocab pre + length (in_vocab vocab ts1) = MAX_WORDS \<and>
         (\<forall>ts3 post'. populate_base_s2v_config c vocab (pre @ obj\<lparr>words := ts1 @ ts3\<rparr> # post') =
            populate_base_s2v_config c vocab (pre @ [obj\<lparr>words := ts1\<rparr>])) \<and>
         snd (populate_base_s2v_config c vocab batch) = (nonempty_count pre + 1, MAX_WORDS))) \<and>
   (MAX_WORDS < ft_total batch \<longrightarrow>
      (\<exists>pre obj post ts1 ts2. batch = pre @ obj # post \<and> words obj = ts1 @ ts2 \<and> ts1 \<noteq> [] \<and>
         ft_total pre + length ts1 = MAX_WORDS \<and>
         (\<forall>ts3 post'. populate_ft_s2v_config cnb fhb d vocab (pre @ obj\<lparr>words := ts1 @ ts3\<rparr> # post') =
            populate_ft_s2v_config cnb fhb d vocab (pre @ [obj\<lparr>words := ts1\<rparr>])) \<and>
         snd (populate_ft_s2v_config cnb fhb d vocab batch) = (nonempty_count pre + 1, MAX_WORDS)))"
proof (intro conjI impI)
  have lt: "(0::nat) < MAX_WORDS" by (simp add: MAX_WORDS_def)
  {
    assume a: "MAX_WORDS < base_retained vocab batch"
    let ?c = "c\<lparr>sentence_boundary := (sentence_boundary c)(0 := 0)\<rparr>"
    from a have ge: "MAX_WORDS \<le> 0 + base_retained vocab batch" by simp
    from base_sentences_cutoff[OF lt ge, of ?c 0] obtain pre obj post ts1 ts2 where
      h: "batch = pre @ obj # post" "words obj = ts1 @ ts2" "ts1 \<noteq> []" "vocab (last ts1) \<noteq> None"
         "0 + base_retained vocab pre + length (in_vocab vocab ts1) = MAX_WORDS"
         "\<forall>ts3 post'. populate_base_sentences vocab (pre @ obj\<lparr>words := ts1 @ ts3\<rparr> # post') (?c, 0, 0) =
            populate_base_sentences vocab (pre @ [obj\<lparr>words := ts1\<rparr>]) (?c, 0, 0)"
         "snd (populate_base_sentences vocab (pre @ [obj\<lparr>words := ts1\<rparr>]) (?c, 0, 0)) =
            (0 + nonempty_count pre + 1, MAX_WORDS)"
      by blast
    have obj: "obj\<lparr>words := ts1 @ ts2\<rparr> = obj" using h(2) by simp
    have "populate_base_sentences vocab batch (?c, 0, 0) =
            populate_base_sentences vocab (pre @ [obj\<lparr>words := ts1\<rparr>]) (?c, 0, 0)"
      using h(6)[rule_format, of ts2 post] h(1) obj by simp
    then have r: "snd (populate_base_s2v_config c vocab batch) = (nonempty_count pre + 1, MAX_WORDS)"
      using h(7) by (simp add: populate_base_s2v_config_def)
    show "\<exists>pre obj post ts1 ts2. batch = pre @ obj # post \<and> words obj = ts1 @ ts2 \<and> ts1 \<noteq> [] \<and>
         vocab (last ts1) \<noteq> None \<and>
         base_retained vocab pre + length (in_vocab vocab ts1) = MAX_WORDS \<and>
         (\<forall>ts3 post'. populate_base_s2v_config c vocab (pre @ obj\<lparr>words := ts1 @ ts3\<rparr> # post') =
            populate_base_s2v_config c vocab (pre @ [obj\<lparr>words := ts1\<rparr>])) \<and>
         snd (populate_base_s2v_config c vocab batch) = (nonempty_count pre + 1, MAX_WORDS)"
      apply (rule exI[of _ pre], rule exI[of _ obj], rule exI[of _ post],
             rule exI[of _ ts1], rule exI[of _ ts2])
      using h r by (simp add: populate_base_s2v_config_def)
  }
  {
    assume a: "MAX_WORDS < ft_total batch"
    let ?c = "d\<lparr>sentence_boundary := (sentence_boundary d)(0 := 0)\<rparr>"
    from a have ge: "MAX_WORDS \<le> 0 + ft_total batch" by simp
    from ft_sentences_cutoff[OF lt ge, of cnb fhb vocab] obtain pre obj post ts1 ts2 where
      h: "batch = pre @ obj # post" "words obj = ts1 @ ts2" "ts1 \<noteq> []"
         "0 + ft_total pre + length ts1 = MAX_WORDS"
         "\<forall>c s ts3 post'.
            populate_ft_sentences cnb fhb vocab (pre @ obj\<lparr>words := ts1 @ ts3\<rparr> # post') (c, s, 0) =
            populate_ft_sentences cnb fhb vocab (pre @ [obj\<lparr>words := ts1\<rparr>]) (c, s, 0)"
         "\<forall>c s. snd (populate_ft_sentences cnb fhb vocab (pre @ [obj\<lparr>words := ts1\<rparr>]) (c, s, 0)) =
            (s + nonempty_count pre + 1, MAX_WORDS)"
      by blast
    have obj: "obj\<lparr>words := ts1 @ ts2\<rparr> = obj" using h(2) by simp
    have "populate_ft_sentences cnb fhb vocab batch (?c, 0, 0) =
            populate_ft_sentences cnb fhb vocab (pre @ [obj\<lparr>words := ts1\<rparr>]) (?c, 0, 0)"
      using h(5)[rule_format, of ts2 post ?c 0] h(1) obj by simp
    then have r: "snd (populate_ft_s2v_config cnb fhb d vocab batch) = (nonempty_count pre + 1, MAX_WORDS)"
      using h(6) by (simp add: populate_ft_s2v_config_def)
    show "\<exists>pre obj post ts1 ts2. batch = pre @ obj # post \<and> words obj = ts1 @ ts2 \<and> ts1 \<noteq> [] \<and>
         ft_total pre + length ts1 = MAX_WORDS \<and>
         (\<forall>ts3 post'. populate_ft_s2v_config cnb fhb d vocab (pre @ obj\<lparr>words := ts1 @ ts3\<rparr> # post') =
            populate_ft_s2v_config cnb fhb d vocab (pre @ [obj\<lparr>words := ts1\<rparr>])) \<and>
         snd (populate_ft_s2v_config cnb fhb d vocab batch) = (nonempty_count pre + 1, MAX_WORDS)"
      apply (rule exI[of _ pre], rule exI[of _ obj], rule exI[of _ post],
             rule exI[of _ ts1], rule exI[of _ ts2])
      using h r by (simp add: populate_ft_s2v_config_def)
  }
qed

text \<open>The amended C1 at the batch of one sentence of 10001 tokens.\<close>

theorem cutoff_truncation_witness:
  "MAX_WORDS < base_retained cat_sat_vocab [long_sentence] \<and>
   (\<exists>pre obj post ts1 ts2. [long_sentence] = pre @ obj # post \<and> words obj = ts1 @ ts2 \<and> ts1 \<noteq> [] \<and>
      cat_sat_vocab (last ts1) \<noteq> None \<and>
      base_retained cat_sat_vocab pre + length (in_vocab cat_sat_vocab ts1) = MAX_WORDS \<and>
      (\<forall>ts3 post'. populate_base_s2v_config cat_sat_config cat_sat_vocab (pre @ obj\<lparr>words := ts1 @ ts3\<rparr> # post') =
         populate_base_s2v_config cat_sat_config cat_sat_vocab (pre @ [obj\<lparr>words := ts1\<rparr>])) \<and>
      snd (populate_base_s2v_config cat_sat_config cat_sat_vocab [long_sentence]) =
        (nonempty_count pre + 1, MAX_WORDS)) \<and>
   MAX_WORDS < ft_total [long_sentence] \<and>
   (\<exists>pre obj post ts1 ts2. [long_sentence] = pre @ obj # post \<and> words obj = ts1 @ ts2 \<and> ts1 \<noteq> [] \<and>
      ft_total pre + length ts1 = MAX_WORDS \<and>
      (\<forall>ts3 post'. populate_ft_s2v_config no_ngrams zero_hash cat_sat_ft_config cat_sat_vocab
                      (pre @ obj\<lparr>words := ts1 @ ts3\<rparr> # post') =
         populate_ft_s2v_config no_ngrams zero_hash cat_sat_ft_config cat_sat_vocab (pre @ [obj\<lparr>words := ts1\<rparr>])) \<and>
      snd (populate_ft_s2v_config no_ngrams zero_hash cat_sat_ft_config cat_sat_vocab [long_sentence]) =
        (nonempty_count pre + 1, MAX_WORDS))"
proof -
  have h1: "MAX_WORDS < base_retained cat_sat_vocab [long_sentence]"
    by (simp add: long_sentence_def in_vocab_cat_replicate MAX_WORDS_def)
  have h2: "MAX_WORDS < ft_total [long_sentence]"
    by (simp add: long_sentence_def MAX_WORDS_def)
  show ?thesis
    using cutoff_truncation[where vocab = cat_sat_vocab and batch = "[long_sentence]"
        and c = cat_sat_config and cnb = no_ngrams and fhb = zero_hash and d = cat_sat_ft_config]
      h1 h2
    by blast
qed

text \<open>
  C9 (plain mode drops unknown tokens). The token loop gives the same struct and the same
  counter on a token list and on that list without its unknown tokens: an unknown token
  leaves no trace, neither in \<open>word_indices\<close> nor in \<open>sent_adresses\<close> nor in
  \<open>eff_words\<close>. The returned \<open>eff_words\<close> is the number of tokens of the batch that are
  in the vocabulary, stopped at \<open>MAX_WORDS\<close>: unknown tokens do not count toward the cap.
\<close>

theorem oov_tokens_dropped:
  "populate_base_tokens vocab obj_index ts (c, w) =
     populate_base_tokens vocab obj_index (in_vocab vocab ts) (c, w) \<and>
   snd (snd (populate_base_s2v_config c vocab batch)) = min MAX_WORDS (base_retained vocab batch)"
proof -
  have "(0::nat) < MAX_WORDS" by (simp add: MAX_WORDS_def)
  then have "snd (snd (populate_base_s2v_config c vocab batch)) = min MAX_WORDS (0 + base_retained vocab batch)"
    unfolding populate_base_s2v_config_def by (rule base_sentences_counts)
  then show ?thesis using base_tokens_filter[of vocab obj_index ts c w] by simp
qed

text \<open>
  C8 (what the populators return). The subword populator keeps the invariants on every
  batch: \<open>eff_sents\<close> is an index of the boundary array, the first boundary entry is 0,
  the entries up to \<open>eff_sents\<close> do not decrease, the entry at \<open>eff_sents\<close> is
  \<open>eff_words\<close>, \<open>eff_words\<close> is at most \<open>MAX_WORDS\<close> and every recorded subword
  count is at most \<open>MAX_NGRAMS\<close>. The plain populator keeps \<open>eff_words\<close> at most
  \<open>MAX_WORDS\<close>, and it keeps the boundary invariants whenever the \<open>eff_sents\<close> it
  returns is an index of the boundary array. It is not always one: on 10001 sentences of
  one unknown token each the plain populator returns \<open>eff_sents = 10001\<close>, and
  \<open>sentence_boundary[eff_sents]\<close> is not an entry of an array of \<open>MAX_WORDS + 1\<close>
  entries. There the claim fails on the code.
\<close>

theorem populator_invariants:
  "(case populate_base_s2v_config c vocab batch of
      (c', eff_sents, eff_words) \<Rightarrow>
        eff_words \<le> MAX_WORDS \<and>
        (eff_sents < sentence_boundary_capacity \<longrightarrow>
           sentence_boundary c' 0 = 0 \<and>
           (\<forall>j<eff_sents. sentence_boundary c' j \<le> sentence_boundary c' (j + 1)) \<and>
           sentence_boundary c' eff_sents = eff_words)) \<and>
   (case populate_ft_s2v_config cnb fhb d vocab batch of
      (d', eff_sents, eff_words) \<Rightarrow>
        eff_sents < sentence_boundary_capacity \<and>
        sentence_boundary d' 0 = 0 \<and>
        (\<forall>j<eff_sents. sentence_boundary d' j \<le> sentence_boundary d' (j + 1)) \<and>
        sentence_boundary d' eff_sents = eff_words \<and> eff_words \<le> MAX_WORDS \<and>
        (\<forall>i<eff_words. subwords_idx_len d' i \<le> MAX_NGRAMS)) \<and>
   fst (snd (populate_base_s2v_config c Map.empty (replicate 10001 oov_sentence))) = 10001 \<and>
   \<not> fst (snd (populate_base_s2v_config c Map.empty (replicate 10001 oov_sentence)))
       < sentence_boundary_capacity"
proof -
  have lt: "(0::nat) < MAX_WORDS" by (simp add: MAX_WORDS_def)
  obtain c' s' w' where b: "populate_base_sentences vocab batch
      (c\<lparr>sentence_boundary := (sentence_boundary c)(0 := 0)\<rparr>, 0, 0) = (c', s', w')"
    by (cases "populate_base_sentences vocab batch
      (c\<lparr>sentence_boundary := (sentence_boundary c)(0 := 0)\<rparr>, 0, 0)")
  have bi: "sentence_boundary c' 0 = 0 \<and>
        (\<forall>j<s'. sentence_boundary c' j \<le> sentence_boundary c' (j + 1)) \<and>
        sentence_boundary c' s' = w' \<and> w' \<le> MAX_WORDS"
    using base_sentences_invariant[OF b lt] by simp
  obtain d' s'' w'' where f: "populate_ft_sentences cnb fhb vocab batch
      (d\<lparr>sentence_boundary := (sentence_boundary d)(0 := 0)\<rparr>, 0, 0) = (d', s'', w'')"
    by (cases "populate_ft_sentences cnb fhb vocab batch
      (d\<lparr>sentence_boundary := (sentence_boundary d)(0 := 0)\<rparr>, 0, 0)")
  have fi: "sentence_boundary d' 0 = 0 \<and>
        (\<forall>j<s''. sentence_boundary d' j \<le> sentence_boundary d' (j + 1)) \<and>
        sentence_boundary d' s'' = w'' \<and> w'' \<le> MAX_WORDS"
    using ft_sentences_invariant[OF f lt] by simp
  have fl: "\<forall>i<w''. subwords_idx_len d' i \<le> MAX_NGRAMS"
    using ft_sentences_len[OF f lt] by simp
  have "s'' \<le> w''" using ft_sentences_sents_le[OF f lt] by simp
  then have fc: "s'' < sentence_boundary_capacity"
    using fi by (simp add: sentence_boundary_capacity_def)
  have "snd (populate_base_sentences Map.empty (replicate 10001 oov_sentence)
          (c\<lparr>sentence_boundary := (sentence_boundary c)(0 := 0)\<rparr>, 0, 0)) = (0 + 10001, 0)"
    by (rule base_sentences_all_oov) (simp_all add: oov_sentence_def in_vocab_def MAX_WORDS_def)
  then have ov: "fst (snd (populate_base_s2v_config c Map.empty (replicate 10001 oov_sentence))) = 10001"
    by (simp add: populate_base_s2v_config_def)
  have cap: "\<not> (10001::nat) < sentence_boundary_capacity"
    by (simp add: sentence_boundary_capacity_def MAX_WORDS_def)
  have main: "(case populate_base_s2v_config c vocab batch of
      (c', eff_sents, eff_words) \<Rightarrow>
        eff_words \<le> MAX_WORDS \<and>
        (eff_sents < sentence_boundary_capacity \<longrightarrow>
           sentence_boundary c' 0 = 0 \<and>
           (\<forall>j<eff_sents. sentence_boundary c' j \<le> sentence_boundary c' (j + 1)) \<and>
           sentence_boundary c' eff_sents = eff_words)) \<and>
   (case populate_ft_s2v_config cnb fhb d vocab batch of
      (d', eff_sents, eff_words) \<Rightarrow>
        eff_sents < sentence_boundary_capacity \<and>
        sentence_boundary d' 0 = 0 \<and>
        (\<forall>j<eff_sents. sentence_boundary d' j \<le> sentence_boundary d' (j + 1)) \<and>
        sentence_boundary d' eff_sents = eff_words \<and> eff_words \<le> MAX_WORDS \<and>
        (\<forall>i<eff_words. subwords_idx_len d' i \<le> MAX_NGRAMS))"
    using bi fi fl fc by (simp add: populate_base_s2v_config_def populate_ft_s2v_config_def b f)
  show ?thesis using main ov cap by simp
qed

text \<open>
  C8 at the sentence cat sat: \<open>eff_sents = 1\<close> is an index of the boundary array, one
  boundary step from 0 to 2, two recorded subword counts.
\<close>

theorem populator_invariants_witness:
  "fst (snd (populate_base_s2v_config cat_sat_config cat_sat_vocab [cat_sat_sentence]))
     < sentence_boundary_capacity \<and>
   (0::nat) < fst (snd (populate_base_s2v_config cat_sat_config cat_sat_vocab [cat_sat_sentence])) \<and>
   sentence_boundary (fst (populate_base_s2v_config cat_sat_config cat_sat_vocab [cat_sat_sentence])) 0
     \<le> sentence_boundary (fst (populate_base_s2v_config cat_sat_config cat_sat_vocab [cat_sat_sentence])) (0 + 1) \<and>
   sentence_boundary (fst (populate_base_s2v_config cat_sat_config cat_sat_vocab [cat_sat_sentence]))
     (fst (snd (populate_base_s2v_config cat_sat_config cat_sat_vocab [cat_sat_sentence]))) =
     snd (snd (populate_base_s2v_config cat_sat_config cat_sat_vocab [cat_sat_sentence])) \<and>
   (0::nat) < fst (snd (populate_ft_s2v_config no_ngrams zero_hash cat_sat_ft_config cat_sat_vocab [cat_sat_sentence])) \<and>
   sentence_boundary (fst (populate_ft_s2v_config no_ngrams zero_hash cat_sat_ft_config cat_sat_vocab [cat_sat_sentence])) 0
     \<le> sentence_boundary (fst (populate_ft_s2v_config no_ngrams zero_hash cat_sat_ft_config cat_sat_vocab [cat_sat_sentence])) (0 + 1) \<and>
   (1::nat) < snd (snd (populate_ft_s2v_config no_ngrams zero_hash cat_sat_ft_config cat_sat_vocab [cat_sat_sentence])) \<and>
   subwords_idx_len (fst (populate_ft_s2v_config no_ngrams zero_hash cat_sat_ft_config cat_sat_vocab [cat_sat_sentence])) 1
     \<le> MAX_NGRAMS"
proof -
  have cap: "fst (snd (populate_base_s2v_config cat_sat_config cat_sat_vocab [cat_sat_sentence]))
     < sentence_boundary_capacity"
    using populate_base_cat_sat by (simp add: sentence_boundary_capacity_def MAX_WORDS_def)
  show ?thesis
    using populator_invariants[where c = cat_sat_config and vocab = cat_sat_vocab
        and batch = "[cat_sat_sentence]" and cnb = no_ngrams and fhb = zero_hash and d = cat_sat_ft_config]
      populate_base_cat_sat populate_ft_cat_sat cap
    by (auto split: prod.splits)
qed



text \<open>
  C2 (subword fallback on several unknown tokens). The populator stores hash \<open>i\<close> of the
  token in slot \<open>eff_words + i\<close> of \<open>subwords_idx\<close>, and the engine reads slot \<open>i + j\<close>, so
  the hashes of a token are overwritten by those of the next unknown token. On the
  sentence of the two unknown tokens ab and cd, with hashes 1, 2 and 3, 4 and n-gram rows
  \<open>[2,0]\<close>, \<open>[0,2]\<close>, \<open>[4,0]\<close>, \<open>[0,4]\<close>, the slots 0, 1, 2 end as 1, 3, 4: the token ab
  contributes \<open>[3,0]\<close>, half the sum of rows 1 and 3, where the average of its own rows
  1 and 2 is \<open>[1,1]\<close>, and the output row is \<open>[5/2, 1]\<close>, not \<open>[3/2, 3/2]\<close>.
\<close>

theorem kept_hashes_overwritten:
  "ngram_hashes letters letter_hash two_oov_config ''ab'' = [1, 2] \<and>
   map (subwords_idx (fst (populate_ft_s2v_config letters letter_hash two_oov_config Map.empty
          [two_oov_sentence]))) [0, 1, 2] = [1, 3, 4] \<and>
   map (fst (ft_word_step (fst (populate_ft_s2v_config letters letter_hash two_oov_config Map.empty
          [two_oov_sentence])) 0 (\<lambda>k. 0, \<lambda>k. 0, 0, 0))) [0, 1] = [3, 0] \<and>
   map (\<lambda>k. 1 / 2 * (ngram_vectors two_oov_config (1 * 2 + k) + ngram_vectors two_oov_config (2 * 2 + k)))
     [0, 1] = [1, 1] \<and>
   map (sentence_vectors (fst (train_average_cy_ft letters letter_hash two_oov_config Map.empty
          [two_oov_sentence]))) [0, 1] = [5 / 2, 1]"
proof -
  have a: "ngram_hashes letters letter_hash two_oov_config ''ab'' = [1, 2]"
    by (simp add: two_oov_hashes two_oov_config_def)
  have b: "map (subwords_idx (fst (populate_ft_s2v_config letters letter_hash two_oov_config Map.empty
          [two_oov_sentence]))) [0, 1, 2] = [1, 3, 4]"
    unfolding two_oov_populate by simp
  have c: "map (\<lambda>k. 1 / 2 * (ngram_vectors two_oov_config (1 * 2 + k) + ngram_vectors two_oov_config (2 * 2 + k)))
     [0, 1] = [1, 1]"
    by (simp add: two_oov_config_def)
  show ?thesis using a b c two_oov_first_token two_oov_result by simp
qed

text \<open>
  C7 (the scratch buffer). With \<open>(sv, m, r)\<close> the state of the sentence loop after \<open>n\<close>
  iterations (the state at entry to iteration \<open>n\<close>, and for \<open>n = num_sentences\<close> the
  state at exit), and \<open>(sv1, m1, l1, r1)\<close> the state of the word loop of sentence \<open>n\<close> at
  entry to word \<open>i\<close>: the scratch buffer is zero in both, and it is zero in the struct
  the engine returns.
\<close>

theorem scratch_buffer_zero:
  assumes "fold (ft_sentence_step c) [0..<n] (sentence_vectors c, memset_zero (mem c) (size_c c), 0) = (sv, m, r)"
    and "fold (ft_word_step c) [sentence_boundary c n..<i] (sv, m, 0, r) = (sv1, m1, l1, r1)"
  shows "scratch_zero c m \<and> scratch_zero c m1 \<and>
    scratch_zero c (mem (compute_ft_sentence_averages c num_sentences))"
proof -
  have z: "\<And>k. scratch_zero c (fst (snd (fold (ft_sentence_step c) [0..<k]
      (sentence_vectors c, memset_zero (mem c) (size_c c), 0))))"
    by (rule ft_sentences_scratch) (simp add: scratch_zero_memset)
  have m: "scratch_zero c m" using z[of n] assms(1) by simp
  have m1: "scratch_zero c m1"
    using ft_words_scratch[of c "(sv, m, 0, r)" "[sentence_boundary c n..<i]"] m assms(2) by simp
  have "scratch_zero c (mem (compute_ft_sentence_averages c num_sentences))"
    using z[of num_sentences] by (auto simp: compute_ft_sentence_averages_def split: prod.splits)
  then show ?thesis using m m1 by simp
qed

text \<open>
  C7 on the struct populated from the sentence of two unknown tokens: at entry to the
  first sentence, at entry to its second word, and in the struct returned.
\<close>

theorem scratch_buffer_zero_witness:
  "fold (ft_sentence_step two_oov_populated) [0..<0]
     (sentence_vectors two_oov_populated, memset_zero (mem two_oov_populated) (size_c two_oov_populated), 0) =
     (sentence_vectors two_oov_populated, memset_zero (mem two_oov_populated) (size_c two_oov_populated), 0) \<and>
   scratch_zero two_oov_populated (memset_zero (mem two_oov_populated) (size_c two_oov_populated)) \<and>
   scratch_zero two_oov_populated
     (fst (snd (fold (ft_word_step two_oov_populated) [sentence_boundary two_oov_populated 0..<1]
        (sentence_vectors two_oov_populated, memset_zero (mem two_oov_populated) (size_c two_oov_populated),
         0, 0)))) \<and>
   scratch_zero two_oov_populated (mem (compute_ft_sentence_averages two_oov_populated 1))"
proof -
  let ?c = two_oov_populated
  let ?X = "fold (ft_word_step ?c) [sentence_boundary ?c 0..<1]
        (sentence_vectors ?c, memset_zero (mem ?c) (size_c ?c), 0, 0)"
  have h1: "fold (ft_sentence_step ?c) [0..<0]
     (sentence_vectors ?c, memset_zero (mem ?c) (size_c ?c), 0) =
     (sentence_vectors ?c, memset_zero (mem ?c) (size_c ?c), 0)"
    by simp
  have h2: "?X = (fst ?X, fst (snd ?X), fst (snd (snd ?X)), snd (snd (snd ?X)))" by simp
  show ?thesis using scratch_buffer_zero[OF h1 h2, of 1] h1 by simp
qed

text \<open>
  C5 (sentences that contribute nothing). Let \<open>obj\<close> be a sentence of the batch whose
  target row no other sentence of the batch has. In plain mode, when no token of \<open>obj\<close>
  is in the vocabulary (in particular when it has no token), every entry of its row in
  the output matrix after the call is the entry before the call; in subword mode the same
  holds when \<open>obj\<close> has no token.
\<close>

theorem zero_contribution_row_untouched:
  assumes "batch = pre @ obj # post" and "\<forall>ob\<in>set pre \<union> set post. index ob \<noteq> index obj"
  shows "(in_vocab vocab (words obj) = [] \<and> k < size_c c \<longrightarrow>
      sentence_vectors (fst (train_average_cy_base c vocab batch)) (index obj * size_c c + k) =
        sentence_vectors c (index obj * size_c c + k)) \<and>
    (words obj = [] \<and> k < size_c d \<longrightarrow>
      sentence_vectors (fst (train_average_cy_ft cnb fhb d vocab batch)) (index obj * size_c d + k) =
        sentence_vectors d (index obj * size_c d + k))"
proof (intro conjI impI)
  assume a: "in_vocab vocab (words obj) = [] \<and> k < size_c c"
  have "\<forall>ob\<in>set batch. index ob = index obj \<longrightarrow> in_vocab vocab (words ob) = []"
    using assms a by auto
  then show "sentence_vectors (fst (train_average_cy_base c vocab batch)) (index obj * size_c c + k) =
        sentence_vectors c (index obj * size_c c + k)"
    using a by (intro base_untouched_row) simp_all
next
  assume a: "words obj = [] \<and> k < size_c d"
  have "\<forall>ob\<in>set batch. index ob = index obj \<longrightarrow> words ob = []"
    using assms a by auto
  then show "sentence_vectors (fst (train_average_cy_ft cnb fhb d vocab batch)) (index obj * size_c d + k) =
        sentence_vectors d (index obj * size_c d + k)"
    using a by (intro ft_untouched_row) simp_all
qed

text \<open>
  C5 on a batch of the sentence cat sat for row 0 and a second sentence for row 1: the
  unknown token dog in plain mode, no token in subword mode.
\<close>

theorem zero_contribution_row_untouched_witness:
  "[cat_sat_sentence, unknown_sentence] = [cat_sat_sentence] @ unknown_sentence # [] \<and>
   index cat_sat_sentence \<noteq> index unknown_sentence \<and>
   in_vocab cat_sat_vocab (words unknown_sentence) = [] \<and> 1 < size_c cat_sat_config \<and>
   sentence_vectors (fst (train_average_cy_base cat_sat_config cat_sat_vocab
       [cat_sat_sentence, unknown_sentence])) (index unknown_sentence * size_c cat_sat_config + 1) =
     sentence_vectors cat_sat_config (index unknown_sentence * size_c cat_sat_config + 1) \<and>
   [cat_sat_sentence, empty_sentence] = [cat_sat_sentence] @ empty_sentence # [] \<and>
   index cat_sat_sentence \<noteq> index empty_sentence \<and>
   words empty_sentence = [] \<and> 1 < size_c cat_sat_ft_config \<and>
   sentence_vectors (fst (train_average_cy_ft no_ngrams zero_hash cat_sat_ft_config cat_sat_vocab
       [cat_sat_sentence, empty_sentence])) (index empty_sentence * size_c cat_sat_ft_config + 1) =
     sentence_vectors cat_sat_ft_config (index empty_sentence * size_c cat_sat_ft_config + 1)"
proof -
  have s1: "[cat_sat_sentence, unknown_sentence] = [cat_sat_sentence] @ unknown_sentence # []" by simp
  have s2: "[cat_sat_sentence, empty_sentence] = [cat_sat_sentence] @ empty_sentence # []" by simp
  have d1: "\<forall>ob\<in>set [cat_sat_sentence] \<union> set []. index ob \<noteq> index unknown_sentence"
    by (simp add: cat_sat_sentence_def unknown_sentence_def)
  have d2: "\<forall>ob\<in>set [cat_sat_sentence] \<union> set []. index ob \<noteq> index empty_sentence"
    by (simp add: cat_sat_sentence_def empty_sentence_def)
  have o: "in_vocab cat_sat_vocab (words unknown_sentence) = []"
    by (simp add: in_vocab_def unknown_sentence_def cat_sat_vocab_def)
  have e: "words empty_sentence = []" by (simp add: empty_sentence_def)
  have k1: "1 < size_c cat_sat_config" by (simp add: cat_sat_config_def)
  have k2: "1 < size_c cat_sat_ft_config"
    by (simp add: cat_sat_ft_config_def cat_sat_config_def BaseSentenceVecsConfig.defs)
  show ?thesis
    using zero_contribution_row_untouched[OF s1 d1, where k = 1 and c = cat_sat_config
        and d = cat_sat_ft_config and cnb = no_ngrams and fhb = zero_hash and vocab = cat_sat_vocab]
      zero_contribution_row_untouched[OF s2 d2, where k = 1 and c = cat_sat_config
        and d = cat_sat_ft_config and cnb = no_ngrams and fhb = zero_hash and vocab = cat_sat_vocab]
      o e k1 k2 d1 d2
    by simp
qed

text \<open>
  C4 (the plain average). Let \<open>obj\<close> be a sentence of the batch that starts before the
  cutoff, whose target row no other sentence of the batch has, and \<open>ws\<close> its kept words:
  its tokens that are in the vocabulary, up to the cutoff. When \<open>ws\<close> is not empty,
  entry \<open>k\<close> of the row after the call is what \<open>sscal\<close> stores, for the factor
  \<open>ONEF / n\<close> with \<open>n\<close> the number of kept words, on the accumulation by \<open>saxpy\<close>, in
  token order and from the entry before the call (zero for a zeroed row), of the weight of
  each kept word times entry \<open>k\<close> of its embedding row. This holds for every arithmetic:
  each operation rounds as the BLAS rounds, and the operations come in the order of the
  tokens (\<open>token_order_observable\<close> has an arithmetic in which that order is read off
  the result).

  In the scenario with cat and sat the weight 0.3 is held as the binary32 value nearest
  to it, \<open>5033165 / 2^24\<close>. With an arithmetic that is exact where single precision is,
  the call returns one sentence and two words and leaves the row \<open>[1/4, 5033165 / 2^25]\<close>:
  0.25, and the binary32 value nearest to 0.15.
\<close>

theorem plain_sentence_average:
  "(batch = pre @ obj # post \<and> (\<forall>ob\<in>set pre \<union> set post. index ob \<noteq> index obj) \<and>
    base_retained vocab pre < MAX_WORDS \<and>
    ws = take (MAX_WORDS - base_retained vocab pre) (in_vocab vocab (words obj)) \<and> ws \<noteq> [] \<and>
    k < size_c c \<longrightarrow>
    sentence_vectors (fst (train_average_cy_base_ar ar c vocab batch)) (index obj * size_c c + k) =
      scal_entry ar (one_over ar (length ws))
        (foldl (\<lambda>acc t. axpy_entry ar (word_weights c (the (vocab t)))
                  (word_vectors c (the (vocab t) * size_c c + k)) acc)
           (sentence_vectors c (index obj * size_c c + k)) ws)) \<and>
   (exact_when_representable ar32 \<longrightarrow>
      snd (train_average_cy_base_ar ar32 cat_sat_config_f32 cat_sat_vocab [cat_sat_sentence]) = (1, 2) \<and>
      map (sentence_vectors (fst (train_average_cy_base_ar ar32 cat_sat_config_f32 cat_sat_vocab
             [cat_sat_sentence]))) [0, 1] = [1 / 4, 5033165 / 33554432]) \<and>
   nearest_float32 (3 / 10) (word_weights cat_sat_config_f32 1) \<and>
   nearest_float32 (3 / 20) (5033165 / 33554432)"
proof -
  have w: "word_weights cat_sat_config_f32 1 = 5033165 / 16777216"
    by (simp add: cat_sat_config_f32_def)
  show ?thesis
    using base_sentence_average_ar[of batch pre obj post vocab ws k c ar] cat_sat_result_f32[of ar32]
      nearest_three_tenths nearest_three_twentieths
    unfolding w by blast
qed

text \<open>
  C4 at the scenario itself, in the arithmetic of the real numbers: entry 1 of row 0 is
  half of \<open>0 + 1/2 * 0 + 5033165 / 2^24 * 1\<close>.
\<close>

theorem plain_sentence_average_witness:
  "[cat_sat_sentence] = [] @ cat_sat_sentence # [] \<and>
   base_retained cat_sat_vocab [] < MAX_WORDS \<and>
   words cat_sat_sentence = take (MAX_WORDS - base_retained cat_sat_vocab [])
      (in_vocab cat_sat_vocab (words cat_sat_sentence)) \<and>
   words cat_sat_sentence \<noteq> [] \<and>
   1 < size_c cat_sat_config_f32 \<and>
   exact_when_representable exact_arith \<and>
   sentence_vectors (fst (train_average_cy_base_ar exact_arith cat_sat_config_f32 cat_sat_vocab
       [cat_sat_sentence])) (index cat_sat_sentence * size_c cat_sat_config_f32 + 1) =
     scal_entry exact_arith (one_over exact_arith (length (words cat_sat_sentence)))
       (foldl (\<lambda>acc t. axpy_entry exact_arith (word_weights cat_sat_config_f32 (the (cat_sat_vocab t)))
                 (word_vectors cat_sat_config_f32 (the (cat_sat_vocab t) * size_c cat_sat_config_f32 + 1)) acc)
          (sentence_vectors cat_sat_config_f32 (index cat_sat_sentence * size_c cat_sat_config_f32 + 1))
          (words cat_sat_sentence)) \<and>
   scal_entry exact_arith (one_over exact_arith (length (words cat_sat_sentence)))
       (foldl (\<lambda>acc t. axpy_entry exact_arith (word_weights cat_sat_config_f32 (the (cat_sat_vocab t)))
                 (word_vectors cat_sat_config_f32 (the (cat_sat_vocab t) * size_c cat_sat_config_f32 + 1)) acc)
          (sentence_vectors cat_sat_config_f32 (index cat_sat_sentence * size_c cat_sat_config_f32 + 1))
          (words cat_sat_sentence)) = 5033165 / 33554432 \<and>
   snd (train_average_cy_base_ar exact_arith cat_sat_config_f32 cat_sat_vocab [cat_sat_sentence]) = (1, 2) \<and>
   map (sentence_vectors (fst (train_average_cy_base_ar exact_arith cat_sat_config_f32 cat_sat_vocab
          [cat_sat_sentence]))) [0, 1] = [1 / 4, 5033165 / 33554432]"
proof -
  have h1: "[cat_sat_sentence] = [] @ cat_sat_sentence # []" by simp
  have h2: "\<forall>ob\<in>set [] \<union> set []. index ob \<noteq> index cat_sat_sentence" by simp
  have h3: "base_retained cat_sat_vocab [] < MAX_WORDS" by (simp add: MAX_WORDS_def)
  have h4: "words cat_sat_sentence = take (MAX_WORDS - base_retained cat_sat_vocab [])
      (in_vocab cat_sat_vocab (words cat_sat_sentence))"
    by (simp add: cat_sat_sentence_def cat_sat_vocab_def in_vocab_def MAX_WORDS_def)
  have h5: "words cat_sat_sentence \<noteq> []" by (simp add: cat_sat_sentence_def)
  have h6: "1 < size_c cat_sat_config_f32" by (simp add: cat_sat_config_f32_def)
  have h7: "exact_when_representable exact_arith"
    by (simp add: exact_when_representable_def exact_arith_def)
  have v: "scal_entry exact_arith (one_over exact_arith (length (words cat_sat_sentence)))
       (foldl (\<lambda>acc t. axpy_entry exact_arith (word_weights cat_sat_config_f32 (the (cat_sat_vocab t)))
                 (word_vectors cat_sat_config_f32 (the (cat_sat_vocab t) * size_c cat_sat_config_f32 + 1)) acc)
          (sentence_vectors cat_sat_config_f32 (index cat_sat_sentence * size_c cat_sat_config_f32 + 1))
          (words cat_sat_sentence)) = 5033165 / 33554432"
    by (simp add: cat_sat_sentence_def cat_sat_vocab_def cat_sat_config_f32_def exact_arith_def)
  show ?thesis
    using plain_sentence_average[where batch = "[cat_sat_sentence]" and pre = "[]"
        and obj = cat_sat_sentence and post = "[]" and vocab = cat_sat_vocab
        and ws = "words cat_sat_sentence" and c = cat_sat_config_f32 and k = 1
        and ar = exact_arith and ?ar32.0 = exact_arith]
      h1 h2 h3 h4 h5 h6 h7 v
    by blast
qed



end
